theory Spec2Isabelle
  imports Complex_Main
begin

section \<open>Python values and strings\<close>

text \<open>
  A Python \<^verbatim>\<open>str\<close> is modelled as a \<^typ>\<open>string\<close>: a list of code points below 256
  (the Latin-1 range of Unicode). The character classes below are the ones CPython uses
  for \<^verbatim>\<open>str.strip\<close>, \<^verbatim>\<open>str.lower\<close> and the \<^verbatim>\<open>re\<close> module on that range.
\<close>

datatype py_error =
    KeyError string
  | UnboundLocalError string
  | OverflowError
  | AttributeError
  | ValueError
  | IndexError
  | ReadError string

text \<open>\<^verbatim>\<open>str.isspace\<close>, also the class \<^verbatim>\<open>\s\<close> of \<^verbatim>\<open>re\<close>.\<close>

definition is_space :: "char \<Rightarrow> bool" where
  "is_space c =
     (let n = (of_char c :: nat)
      in (9 \<le> n \<and> n \<le> 13) \<or> (28 \<le> n \<and> n \<le> 32) \<or> n = 133 \<or> n = 160)"

text \<open>The class \<^verbatim>\<open>\d\<close> of \<^verbatim>\<open>re\<close>: the decimal digits.\<close>

definition is_digit :: "char \<Rightarrow> bool" where
  "is_digit c = (let n = (of_char c :: nat) in 48 \<le> n \<and> n \<le> 57)"

text \<open>The upper-case letters, the ones \<^verbatim>\<open>str.lower\<close> changes.\<close>

definition is_upper :: "char \<Rightarrow> bool" where
  "is_upper c =
     (let n = (of_char c :: nat)
      in (65 \<le> n \<and> n \<le> 90) \<or> (192 \<le> n \<and> n \<le> 222 \<and> n \<noteq> 215))"

text \<open>The class \<^verbatim>\<open>\w\<close> of \<^verbatim>\<open>re\<close>: alphanumeric characters and the underscore.\<close>

definition is_word :: "char \<Rightarrow> bool" where
  "is_word c =
     (let n = (of_char c :: nat)
      in (48 \<le> n \<and> n \<le> 57) \<or> (65 \<le> n \<and> n \<le> 90) \<or> n = 95 \<or> (97 \<le> n \<and> n \<le> 122)
         \<or> n = 170 \<or> n = 178 \<or> n = 179 \<or> n = 181 \<or> n = 185 \<or> n = 186
         \<or> (188 \<le> n \<and> n \<le> 190) \<or> (192 \<le> n \<and> n \<le> 214)
         \<or> (216 \<le> n \<and> n \<le> 246) \<or> (248 \<le> n \<and> n \<le> 255))"

definition lower_char :: "char \<Rightarrow> char" where
  "lower_char c = (if is_upper c then char_of ((of_char c :: nat) + 32) else c)"

definition lower :: "string \<Rightarrow> string" where
  "lower s = map lower_char s"

definition strip :: "string \<Rightarrow> string" where
  "strip s = rev (dropWhile is_space (rev (dropWhile is_space s)))"

fun starts_with :: "string \<Rightarrow> string \<Rightarrow> bool" where
  "starts_with s [] = True"
| "starts_with [] (p # ps) = False"
| "starts_with (x # xs) (p # ps) = (x = p \<and> starts_with xs ps)"

text \<open>\<^verbatim>\<open>sub in s\<close> on strings: \<open>sub\<close> occurs in \<open>s\<close> as a contiguous run.\<close>

fun contains :: "string \<Rightarrow> string \<Rightarrow> bool" where
  "contains [] sub = (sub = [])"
| "contains (x # xs) sub = (starts_with (x # xs) sub \<or> contains xs sub)"

definition digit_char :: "nat \<Rightarrow> char" where
  "digit_char d = char_of (48 + d)"

fun str_nat :: "nat \<Rightarrow> string" where
  "str_nat n = (if n < 10 then [digit_char n] else str_nat (n div 10) @ [digit_char (n mod 10)])"

text \<open>\<^verbatim>\<open>str(i)\<close> of a Python int.\<close>

definition str_int :: "int \<Rightarrow> string" where
  "str_int i = (if i < 0 then CHR ''-'' # str_nat (nat (- i)) else str_nat (nat i))"

section \<open>The regular expressions of \<^verbatim>\<open>make_event_name\<close>\<close>

text \<open>
  The three patterns of \<^verbatim>\<open>make_event_name\<close> are built from five kinds of item: the
  boundary \<^verbatim>\<open>\b\<close>, a literal character, the lazy \<^verbatim>\<open>\s*?\<close>, and the captured group
  \<^verbatim>\<open>(\d+)\<close>, which is one digit followed by a greedy run of digits. \<open>re_match\<close> is the
  backtracking matcher of \<^verbatim>\<open>re\<close> on such a pattern, anchored at one position: it gets
  the character before the position, the text from the position on, and returns the
  matched text (\<^verbatim>\<open>m.group(0)\<close>) and the captured digits (\<^verbatim>\<open>m.group(1)\<close>).
\<close>

datatype tok = WordB | Lit char | SpacesLazy | DigitsPlus | DigitsStar

type_synonym re_result = "(string \<times> string) option"

definition is_word_opt :: "char option \<Rightarrow> bool" where
  "is_word_opt p = (case p of None \<Rightarrow> False | Some c \<Rightarrow> is_word c)"

definition next_char :: "string \<Rightarrow> char option" where
  "next_char s = (case s of [] \<Rightarrow> None | x # _ \<Rightarrow> Some x)"

definition consume :: "char \<Rightarrow> re_result \<Rightarrow> re_result" where
  "consume x r = map_option (\<lambda>(g0, g1). (x # g0, g1)) r"

definition capture :: "char \<Rightarrow> re_result \<Rightarrow> re_result" where
  "capture x r = map_option (\<lambda>(g0, g1). (x # g0, x # g1)) r"

fun re_match :: "tok list \<Rightarrow> char option \<Rightarrow> string \<Rightarrow> re_result" where
  "re_match [] prev s = Some ([], [])"
| "re_match (WordB # ts) prev s =
     (if is_word_opt prev \<noteq> is_word_opt (next_char s) then re_match ts prev s else None)"
| "re_match (Lit c # ts) prev [] = None"
| "re_match (Lit c # ts) prev (x # xs) =
     (if x = c then consume x (re_match ts (Some x) xs) else None)"
| "re_match (SpacesLazy # ts) prev [] = re_match ts prev []"
| "re_match (SpacesLazy # ts) prev (x # xs) =
     (case re_match ts prev (x # xs) of
        Some m \<Rightarrow> Some m
      | None \<Rightarrow> if is_space x then consume x (re_match (SpacesLazy # ts) (Some x) xs) else None)"
| "re_match (DigitsPlus # ts) prev [] = None"
| "re_match (DigitsPlus # ts) prev (x # xs) =
     (if is_digit x then capture x (re_match (DigitsStar # ts) (Some x) xs) else None)"
| "re_match (DigitsStar # ts) prev [] = re_match ts prev []"
| "re_match (DigitsStar # ts) prev (x # xs) =
     (if is_digit x
      then (case re_match (DigitsStar # ts) (Some x) xs of
              Some m \<Rightarrow> capture x (Some m)
            | None \<Rightarrow> re_match ts prev (x # xs))
      else re_match ts prev (x # xs))"

text \<open>\<^verbatim>\<open>re.search\<close>: the match at the leftmost position that has one.\<close>

fun re_search_from :: "tok list \<Rightarrow> char option \<Rightarrow> string \<Rightarrow> re_result" where
  "re_search_from ts prev [] = re_match ts prev []"
| "re_search_from ts prev (x # xs) =
     (case re_match ts prev (x # xs) of
        Some m \<Rightarrow> Some m
      | None \<Rightarrow> re_search_from ts (Some x) xs)"

definition re_search :: "tok list \<Rightarrow> string \<Rightarrow> re_result" where
  "re_search ts s = re_search_from ts None s"

text \<open>\<^verbatim>\<open>\bV\s*?(\d+)\b\<close>, \<^verbatim>\<open>\bVisit\s*?(\d+)\b\<close> and \<^verbatim>\<open>\bP(\d+)\b\<close>.\<close>

definition pat_V :: "tok list" where
  "pat_V = [WordB, Lit CHR ''V'', SpacesLazy, DigitsPlus, WordB]"

definition pat_Visit :: "tok list" where
  "pat_Visit = [WordB, Lit CHR ''V'', Lit CHR ''i'', Lit CHR ''s'', Lit CHR ''i'', Lit CHR ''t'',
                SpacesLazy, DigitsPlus, WordB]"

definition pat_P :: "tok list" where
  "pat_P = [WordB, Lit CHR ''P'', DigitsPlus, WordB]"

text \<open>\<^verbatim>\<open>a or b\<close> on match objects: a match is truthy, \<^verbatim>\<open>None\<close> is not.\<close>

definition or_else :: "re_result \<Rightarrow> re_result \<Rightarrow> re_result" where
  "or_else a b = (case a of Some m \<Rightarrow> Some m | None \<Rightarrow> b)"

section \<open>Event names\<close>

text \<open>
  The configuration: \<^verbatim>\<open>config.get('event_name_mapping', {})\<close> is a dictionary from
  strings to strings; a missing \<^verbatim>\<open>event_name_mapping\<close> is the empty dictionary.
\<close>

record config =
  event_name_mapping :: "(string \<rightharpoonup> string) option"

definition dict_get :: "('k \<rightharpoonup> 'v) \<Rightarrow> 'k \<Rightarrow> 'v \<Rightarrow> 'v" where
  "dict_get d k dflt = (case d k of None \<Rightarrow> dflt | Some v \<Rightarrow> v)"

definition event_mapping_of :: "config \<Rightarrow> (string \<rightharpoonup> string)" where
  "event_mapping_of cfg = (case event_name_mapping cfg of None \<Rightarrow> Map.empty | Some d \<Rightarrow> d)"

text \<open>
  \<open>make_event_name\<close>, lines 19 to 46 of \<^verbatim>\<open>schedule_layout.py\<close>. The library call
  \<^verbatim>\<open>template.format(number=digits)\<close> is the parameter \<open>str_format\<close>: it gets the
  template and the digits and returns the formatted text, or the exception it raises.
\<close>

definition make_event_name ::
  "(string \<Rightarrow> string \<Rightarrow> py_error + string) \<Rightarrow> string \<Rightarrow> string \<Rightarrow> int \<Rightarrow> config
     \<Rightarrow> py_error + string" where
  "make_event_name str_format grp label idx cfg =
     (let event_mapping = event_mapping_of cfg;
          g = lower (strip grp);
          s = lower (strip label)
      in if contains g ''screen'' then Inr (dict_get event_mapping ''screening'' ''SCRN'')
         else if contains g ''random'' then Inr (dict_get event_mapping ''random'' ''RAND'')
         else if contains g ''rtsm'' then Inr (dict_get event_mapping ''rtsm'' ''RTSM'')
         else
           let visit_pattern = dict_get event_mapping ''visit_pattern'' ''V{number}'';
               phone_pattern = dict_get event_mapping ''phone_pattern'' ''P{number}'';
               m = or_else (re_search pat_V s) (or_else (re_search pat_Visit s) (re_search pat_P s))
           in case m of
                Some (g0, g1) \<Rightarrow>
                  if CHR ''P'' \<in> set g0 then str_format phone_pattern g1
                  else str_format visit_pattern g1
              | None \<Rightarrow> Inr (CHR ''V'' # str_int (idx + 1)))"

section \<open>The schedule grid: row 1, the merged event groups\<close>

text \<open>
  Lines 170 to 190 of \<^verbatim>\<open>schedule_layout.py\<close>. A merge of row 1 is recorded with its
  first and last column and the value written to its first cell. \<^verbatim>\<open>cur_group\<close> and
  \<^verbatim>\<open>group_start_col\<close> are assigned together, so the two are one optional pair; the
  loop runs over the groups with the column \<open>c\<close> of the current one.
\<close>

record merge_range =
  start_col :: nat
  end_col :: nat
  anchor :: string

fun merge_loop ::
  "nat \<Rightarrow> string list \<Rightarrow> (string \<times> nat) option \<Rightarrow> merge_range list
     \<Rightarrow> (string \<times> nat) option \<times> merge_range list" where
  "merge_loop c [] st ms = (st, ms)"
| "merge_loop c (g # gs) st ms =
     (let (cur_group, group_start_col) = (case st of None \<Rightarrow> (g, c) | Some p \<Rightarrow> p)
      in if g \<noteq> cur_group
         then merge_loop (Suc c) gs (Some (g, c))
                (ms @ [\<lparr>start_col = group_start_col, end_col = c - 1, anchor = cur_group\<rparr>])
         else merge_loop (Suc c) gs (Some (cur_group, group_start_col)) ms)"

definition row1_merges :: "nat \<Rightarrow> string list \<Rightarrow> merge_range list" where
  "row1_merges col_start_visits visit_groups =
     (case merge_loop col_start_visits visit_groups None [] of
        (None, ms) \<Rightarrow> ms
      | (Some (cur_group, group_start_col), ms) \<Rightarrow>
          ms @ [\<lparr>start_col = group_start_col,
                 end_col = col_start_visits + length visit_groups - 1,
                 anchor = cur_group\<rparr>])"

definition covers :: "merge_range \<Rightarrow> nat \<Rightarrow> bool" where
  "covers m col = (start_col m \<le> col \<and> col \<le> end_col m)"

section \<open>Cell values\<close>

text \<open>
  The values a table cell or a worksheet cell holds: nothing (\<^verbatim>\<open>None\<close>, an empty
  cell), a string, an integer or a float. A float is a rational number, an infinity or
  NaN.
\<close>

datatype pyfloat = Finite rat | PosInf | NegInf | NaN

datatype pyval = VNone | VStr string | VInt int | VFloat pyfloat

text \<open>\<^verbatim>\<open>pd.isna\<close> on a scalar.\<close>

definition isna :: "pyval \<Rightarrow> bool" where
  "isna v = (v = VNone \<or> v = VFloat NaN)"

text \<open>\<^verbatim>\<open>int(x)\<close> of a float truncates towards zero; it raises on an infinity and on NaN.\<close>

definition trunc :: "rat \<Rightarrow> int" where
  "trunc q = (if 0 \<le> q then \<lfloor>q\<rfloor> else \<lceil>q\<rceil>)"

definition py_int :: "pyfloat \<Rightarrow> py_error + int" where
  "py_int f =
     (case f of
        Finite q \<Rightarrow> Inr (trunc q)
      | PosInf \<Rightarrow> Inl OverflowError
      | NegInf \<Rightarrow> Inl OverflowError
      | NaN \<Rightarrow> Inl ValueError)"

text \<open>
  \<^verbatim>\<open>math.isclose(x, n)\<close> of a float and an integer: equal numbers are close, an
  infinity or NaN is close to no integer, and two different finite numbers are compared
  with a relative tolerance in floating point arithmetic. This last comparison is the
  parameter \<open>within_tol\<close>.
\<close>

definition isclose :: "(rat \<Rightarrow> rat \<Rightarrow> bool) \<Rightarrow> pyfloat \<Rightarrow> int \<Rightarrow> bool" where
  "isclose within_tol f n =
     (case f of
        Finite q \<Rightarrow> if q = of_int n then True else within_tol q (of_int n)
      | PosInf \<Rightarrow> False
      | NegInf \<Rightarrow> False
      | NaN \<Rightarrow> False)"

text \<open>
  Lines 281 to 284, and again 322 to 325, of \<^verbatim>\<open>schedule_layout.py\<close>: the value of a
  visit cell before it is written.
\<close>

definition coerce_value :: "(rat \<Rightarrow> rat \<Rightarrow> bool) \<Rightarrow> pyval \<Rightarrow> py_error + pyval" where
  "coerce_value within_tol mapped_value =
     (let v = (if isna mapped_value then VStr [] else mapped_value)
      in case v of
           VFloat f \<Rightarrow>
             (case py_int f of
                Inl e \<Rightarrow> Inl e
              | Inr n \<Rightarrow> if isclose within_tol f n then Inr (VInt n) else Inr v)
         | _ \<Rightarrow> Inr v)"

text \<open>Truthiness of a value, as \<^verbatim>\<open>or\<close> tests it. NaN is a non-zero float, so it is true.\<close>

definition truthy :: "pyval \<Rightarrow> bool" where
  "truthy v =
     (case v of
        VNone \<Rightarrow> False
      | VStr s \<Rightarrow> s \<noteq> []
      | VInt i \<Rightarrow> i \<noteq> 0
      | VFloat f \<Rightarrow> f \<noteq> Finite 0)"

definition py_or :: "pyval \<Rightarrow> pyval \<Rightarrow> pyval" where
  "py_or a b = (if truthy a then a else b)"

section \<open>The input tables\<close>

text \<open>
  A row of a table is looked up by column name: \<open>series_get\<close> is \<^verbatim>\<open>r.get(k, default)\<close>
  for the row with the values \<open>vals\<close> under the column names \<open>cols\<close>. The column names
  of a table are taken to be distinct; of two columns with one name the first is read.

  A visit has the texts of its cells in the columns "Event Group" and "Visit Name" as
  \<^verbatim>\<open>astype(str)\<close> gives them (an empty cell reads "nan"), and the values of its cells in
  all columns. The column names of both tables are the names as read; the function
  strips them.
\<close>

definition series_get :: "string list \<Rightarrow> pyval list \<Rightarrow> string \<Rightarrow> pyval \<Rightarrow> pyval" where
  "series_get cols vals k dflt = (case map_of (zip cols vals) k of None \<Rightarrow> dflt | Some v \<Rightarrow> v)"

record visit =
  event_group :: string
  visit_name :: string
  visit_cells :: "pyval list"

record visits_df =
  v_columns :: "string list"
  visits :: "visit list"

record forms_df =
  f_columns :: "string list"
  f_rows :: "pyval list list"

section \<open>The schedule grid: event names, labels and the randomisation index\<close>

text \<open>Lines 74 and 75: the event name of each visit, by position.\<close>

fun event_names_from ::
  "(string \<Rightarrow> string \<Rightarrow> py_error + string) \<Rightarrow> config \<Rightarrow> int \<Rightarrow> visit list
     \<Rightarrow> py_error + string list" where
  "event_names_from str_format cfg i [] = Inr []"
| "event_names_from str_format cfg i (v # vs) =
     (case make_event_name str_format (event_group v) (visit_name v) i cfg of
        Inl e \<Rightarrow> Inl e
      | Inr name \<Rightarrow>
          (case event_names_from str_format cfg (i + 1) vs of
             Inl e \<Rightarrow> Inl e
           | Inr names \<Rightarrow> Inr (name # names)))"

text \<open>Lines 78 to 84: the index of the first group with "random" in it, else 0.\<close>

fun first_random :: "nat \<Rightarrow> string list \<Rightarrow> nat option" where
  "first_random i [] = None"
| "first_random i (g # gs) =
     (if contains (lower g) ''random'' then Some i else first_random (Suc i) gs)"

definition rand_idx_of :: "string list \<Rightarrow> nat" where
  "rand_idx_of visit_groups = (case first_random 0 visit_groups of None \<Rightarrow> 0 | Some i \<Rightarrow> i)"

text \<open>
  Lines 147 to 157: the label of row 2 for each event name. \<^verbatim>\<open>event_label\<close> is assigned
  in the branches of the \<^verbatim>\<open>if\<close> only; it is unbound before the first assignment
  (\<open>None\<close>), and reading it then raises \<^verbatim>\<open>UnboundLocalError\<close>. The result is the list
  of the values written to row 2, one for each visit column.
\<close>

definition next_label :: "string option \<Rightarrow> string \<Rightarrow> string option" where
  "next_label event_label name =
     (if name = ''SCRN'' then Some ''Screening''
      else if name = ''RAND'' then Some ''Randomisation''
      else if CHR ''V'' \<in> set name then Some (''Visit '' @ drop 1 name)
      else if CHR ''P'' \<in> set name then Some (''Phone Visit '' @ drop 1 name)
      else event_label)"

fun label_loop :: "string option \<Rightarrow> string list \<Rightarrow> py_error + string list" where
  "label_loop event_label [] = Inr []"
| "label_loop event_label (name # names) =
     (case next_label event_label name of
        None \<Rightarrow> Inl (UnboundLocalError ''event_label'')
      | Some l \<Rightarrow>
          (case label_loop (Some l) names of
             Inl e \<Rightarrow> Inl e
           | Inr ls \<Rightarrow> Inr (l # ls)))"

definition row2_labels :: "string list \<Rightarrow> py_error + string list" where
  "row2_labels event_names = label_loop None event_names"

section \<open>The schedule grid: the attribute rows\<close>

text \<open>
  What the body of the loop over the visit columns (lines 240 to 287) computes for the
  attribute \<open>attr\<close> and the column \<open>j\<close>: a value to coerce and write, or the \<^verbatim>\<open>break\<close> of
  line 265, which leaves the loop before the cell of column \<open>j\<close> is written.
\<close>

record grid_ctx =
  visit_groups :: "string list"
  visit_labels :: "string list"
  event_names :: "string list"
  rand_idx :: nat
  df_columns :: "string list"
  df_rows :: "pyval list list"

datatype step = Write pyval | Break

definition visit_field :: "grid_ctx \<Rightarrow> nat \<Rightarrow> string \<Rightarrow> pyval" where
  "visit_field ctx j k = series_get (df_columns ctx) (df_rows ctx ! j) k (VStr [])"

definition mapped_value :: "grid_ctx \<Rightarrow> string \<Rightarrow> nat \<Rightarrow> step" where
  "mapped_value ctx attr j =
     (if starts_with attr ''Visit Dynamics'' then
        (let eg = lower (visit_groups ctx ! j)
         in if rand_idx ctx \<le> j \<and> \<not> contains eg ''end of treatment'' \<and> \<not> contains eg ''end of study''
            then Write (VStr ''Y'') else Write (VStr []))
      else if starts_with attr ''Triggering: Event'' then
        (if event_names ctx ! j = ''RAND'' then Write (VStr ''SCRN'')
         else if starts_with (event_names ctx ! j) ''V'' \<and> 0 < j
           then Write (VStr (event_names ctx ! (j - 1)))
         else if lower (event_names ctx ! j) = ''follow-up'' then Write (VStr ''EOT'')
         else Write (VStr []))
      else if starts_with attr ''Triggering: Form'' then
        (if event_names ctx ! j = ''RAND'' then Write (VStr ''ELIGIBILITY_CRITERIA'')
         else if rand_idx ctx < j then
           (if CHR ''V'' \<in> set (visit_labels ctx ! j) then Break else Write (VStr []))
         else Write (VStr []))
      else if starts_with attr ''Assign Visit Window'' then Write (VStr ''Y'')
      else if starts_with attr ''Offset Type'' \<and> ''Offset Type'' \<in> set (df_columns ctx)
        then Write (visit_field ctx j ''Offset Type'')
      else if starts_with attr ''Offset Days'' \<and> ''Offset Days'' \<in> set (df_columns ctx)
        then Write (visit_field ctx j ''Offset Days'')
      else if starts_with attr ''Day Range - Early'' \<and> ''Day Range - Early'' \<in> set (df_columns ctx)
        then Write (visit_field ctx j ''Day Range - Early'')
      else if starts_with attr ''Day Range - Late'' \<and> ''Day Range - Late'' \<in> set (df_columns ctx)
        then Write (visit_field ctx j ''Day Range - Late'')
      else Write (VStr []))"

text \<open>
  The loop over the visit columns \<open>js\<close> for one attribute: the values written, in the
  order of the columns. A \<^verbatim>\<open>break\<close> ends the list: the cells of the column it happens at
  and of the columns after it are not written.
\<close>

fun attr_cells ::
  "(rat \<Rightarrow> rat \<Rightarrow> bool) \<Rightarrow> grid_ctx \<Rightarrow> string \<Rightarrow> nat list \<Rightarrow> py_error + pyval list" where
  "attr_cells within_tol ctx attr [] = Inr []"
| "attr_cells within_tol ctx attr (j # js) =
     (case mapped_value ctx attr j of
        Break \<Rightarrow> Inr []
      | Write v \<Rightarrow>
          (case coerce_value within_tol v of
             Inl e \<Rightarrow> Inl e
           | Inr w \<Rightarrow>
               (case attr_cells within_tol ctx attr js of
                  Inl e \<Rightarrow> Inl e
                | Inr ws \<Rightarrow> Inr (w # ws))))"

definition dynamic_rows :: "string list" where
  "dynamic_rows =
     [''Visit Dynamics (If Y, then Event should appear based on triggering criteria)'',
      ''Triggering: Event'',
      ''Triggering: Form'',
      ''Triggering: Item = Response (if specific response expected, else leave to accept any entered result)'']"

definition event_window_rows :: "string list" where
  "event_window_rows =
     [''Assign Visit Window'',
      ''Offset Type (Previous Event, Specific Event, or None)'',
      ''Offset Days (Planned Visit Date, as calculated from Offset Event)'',
      ''Day Range - Early'',
      ''Day Range - Late'']"

definition sections :: "(string \<times> string list) list" where
  "sections = [(''Visit Dynamic Properties'', dynamic_rows),
               (''Event Window Configuration'', event_window_rows)]"

section \<open>The schedule grid: the form rows\<close>

text \<open>
  Lines 313 to 326: the values written to the visit columns of the row of one form.
  \<open>cols\<close> are the column names of the forms table and \<open>r\<close> the values of the row.
\<close>

definition form_lookup :: "string list \<Rightarrow> pyval list \<Rightarrow> string \<Rightarrow> string \<Rightarrow> pyval" where
  "form_lookup cols r vlabel en =
     (if vlabel \<in> set cols then series_get cols r vlabel (VStr [])
      else if en \<in> set cols then series_get cols r en (VStr [])
      else VStr [])"

fun form_visit_cells ::
  "(rat \<Rightarrow> rat \<Rightarrow> bool) \<Rightarrow> string list \<Rightarrow> pyval list \<Rightarrow> (string \<times> string) list
     \<Rightarrow> py_error + pyval list" where
  "form_visit_cells within_tol cols r [] = Inr []"
| "form_visit_cells within_tol cols r ((vlabel, en) # rest) =
     (case coerce_value within_tol (form_lookup cols r vlabel en) of
        Inl e \<Rightarrow> Inl e
      | Inr w \<Rightarrow>
          (case form_visit_cells within_tol cols r rest of
             Inl e \<Rightarrow> Inl e
           | Inr ws \<Rightarrow> Inr (w # ws)))"

text \<open>Lines 308 to 310: the three identity cells of a form row, written as they are.\<close>

definition form_identity_cells :: "string list \<Rightarrow> pyval list \<Rightarrow> pyval list" where
  "form_identity_cells cols r =
     [series_get cols r ''Form Label'' (VStr []),
      series_get cols r ''Form Name'' (VStr []),
      series_get cols r ''Source'' (VStr [])]"

text \<open>Lines 328 to 334: the cells of a form row under the extra headers.\<close>

definition extra_vals :: "string list \<Rightarrow> pyval list \<Rightarrow> (string \<rightharpoonup> pyval)" where
  "extra_vals cols r =
     [''Is Form Dynamic?'' \<mapsto>
        py_or (series_get cols r ''Is Form Dynamic?'' (VStr []))
          (py_or (series_get cols r ''Is Form Dynamic'' (VStr []))
             (series_get cols r ''IsDynamic'' (VStr []))),
      ''Form Dynamic Criteria'' \<mapsto>
        py_or (series_get cols r ''Form Dynamic Criteria'' (VStr []))
          (series_get cols r ''Form Dynamic Criteria '' (VStr []))]"

definition form_extra_cells :: "string list \<Rightarrow> pyval list \<Rightarrow> string list \<Rightarrow> pyval list" where
  "form_extra_cells cols r extra_headers =
     map (\<lambda>colname. dict_get (extra_vals cols r) colname (VStr [])) extra_headers"
section \<open>The schedule grid: the worksheet and the layout\<close>

text \<open>
  The worksheet the builder fills: the values of its cells, its merged ranges (first row,
  first column, last row, last column) and its frozen pane. Fonts, fills, borders and
  column widths are left out: no value of a cell depends on them. A merged cell reads as
  a cell without a value; the builder stores no value into one.
\<close>

record grid =
  g_cells :: "(nat \<times> nat) \<rightharpoonup> pyval"
  g_merges :: "(nat \<times> nat \<times> nat \<times> nat) list"
  g_freeze :: "(nat \<times> nat) option"

definition empty_grid :: grid where
  "empty_grid = \<lparr>g_cells = Map.empty, g_merges = [], g_freeze = None\<rparr>"

text \<open>
  \<^verbatim>\<open>ws.cell(row, column, value)\<close>: the cell is created when the sheet has none there, and
  a value other than \<^verbatim>\<open>None\<close> is stored in it.
\<close>

definition ws_cell :: "grid \<Rightarrow> nat \<Rightarrow> nat \<Rightarrow> pyval \<Rightarrow> grid" where
  "ws_cell ws r c v =
     (if v = VNone
      then (case g_cells ws (r, c) of
              None \<Rightarrow> ws\<lparr>g_cells := (g_cells ws)((r, c) \<mapsto> VNone)\<rparr>
            | Some old \<Rightarrow> ws)
      else ws\<lparr>g_cells := (g_cells ws)((r, c) \<mapsto> v)\<rparr>)"

text \<open>
  \<^verbatim>\<open>ws.merge_cells\<close>: a range whose last row or column lies before its first is refused
  with \<^verbatim>\<open>ValueError\<close>; otherwise the range is recorded and every cell of it but the top
  left one becomes a merged cell, which has no value.
\<close>

definition range_cells :: "nat \<Rightarrow> nat \<Rightarrow> nat \<Rightarrow> nat \<Rightarrow> (nat \<times> nat) list" where
  "range_cells r1 c1 r2 c2 =
     concat (map (\<lambda>r. map (\<lambda>c. (r, c)) [c1..<Suc c2]) [r1..<Suc r2])"

definition merge_cells :: "grid \<Rightarrow> nat \<Rightarrow> nat \<Rightarrow> nat \<Rightarrow> nat \<Rightarrow> py_error + grid" where
  "merge_cells ws r1 c1 r2 c2 =
     (if c2 < c1 \<or> r2 < r1 then Inl ValueError
      else Inr (ws\<lparr>g_cells := fold (\<lambda>rc m. m(rc \<mapsto> VNone)) (tl (range_cells r1 c1 r2 c2)) (g_cells ws),
                   g_merges := g_merges ws @ [(r1, c1, r2, c2)]\<rparr>))"

fun fold_err :: "('a \<Rightarrow> 's \<Rightarrow> py_error + 's) \<Rightarrow> 'a list \<Rightarrow> 's \<Rightarrow> py_error + 's" where
  "fold_err f [] s = Inr s"
| "fold_err f (x # xs) s = (case f x s of Inl e \<Rightarrow> Inl e | Inr s' \<Rightarrow> fold_err f xs s')"

text \<open>The values \<open>vs\<close> written to row \<open>r\<close> from column \<open>c\<close> on.\<close>

definition write_row :: "nat \<Rightarrow> nat \<Rightarrow> pyval list \<Rightarrow> grid \<Rightarrow> grid" where
  "write_row r c vs ws = fold (\<lambda>(k, v) ws. ws_cell ws r (c + k) v) (enumerate 0 vs) ws"

text \<open>Lines 109 to 141: the header cells of the left columns, the label column and RTSM.\<close>

definition header_left :: "string list \<Rightarrow> grid \<Rightarrow> grid" where
  "header_left left_columns ws =
     fold (\<lambda>(i, lbl) ws. ws_cell (ws_cell (ws_cell ws 1 (i + 1) VNone) 2 (i + 1) (VStr lbl)) 3 (i + 1) VNone)
       (enumerate 0 left_columns) ws"

definition header_fixed :: "nat \<Rightarrow> nat \<Rightarrow> grid \<Rightarrow> grid" where
  "header_fixed col_after_source col_rtsm ws =
     (let ws = ws_cell ws 1 col_after_source (VStr ''Event Group:'');
          ws = ws_cell ws 2 col_after_source (VStr ''Event Label:'');
          ws = ws_cell ws 3 col_after_source (VStr ''Event Name:'')
      in fold (\<lambda>r ws. ws_cell ws r col_rtsm (VStr ''RTSM'')) [1, 2, 3] ws)"

text \<open>Lines 177 to 178 and 185 to 186: one merge of row 1 and the value of its first cell.\<close>

definition apply_merge :: "merge_range \<Rightarrow> grid \<Rightarrow> py_error + grid" where
  "apply_merge m ws =
     (case merge_cells ws 1 (start_col m) 1 (end_col m) of
        Inl e \<Rightarrow> Inl e
      | Inr ws \<Rightarrow> Inr (ws_cell ws 1 (start_col m) (VStr (anchor m))))"

text \<open>Lines 193 to 203: the header cells of the extra columns.\<close>

definition header_extra :: "nat \<Rightarrow> string list \<Rightarrow> grid \<Rightarrow> grid" where
  "header_extra col_extra extra_headers ws =
     fold (\<lambda>(idx, h) ws.
             ws_cell (ws_cell (ws_cell ws 1 (col_extra + idx) (VStr [])) 2 (col_extra + idx) (VStr h))
               3 (col_extra + idx) (VStr []))
       (enumerate 0 extra_headers) ws"

text \<open>
  Lines 223 to 290: the two sections. The state of the loops is the worksheet and
  \<^verbatim>\<open>cur_row\<close>.
\<close>

record layout_cols =
  n_left :: nat
  col_rtsm :: nat
  col_start_visits :: nat
  n_visits :: nat

definition attr_row ::
  "(rat \<Rightarrow> rat \<Rightarrow> bool) \<Rightarrow> grid_ctx \<Rightarrow> layout_cols \<Rightarrow> string \<Rightarrow> grid \<times> nat
     \<Rightarrow> py_error + grid \<times> nat" where
  "attr_row within_tol ctx lc attr st =
     (case st of (ws, cur_row) \<Rightarrow>
        (case merge_cells ws cur_row 1 cur_row (n_left lc) of
           Inl e \<Rightarrow> Inl e
         | Inr ws \<Rightarrow>
             (let ws = ws_cell ws cur_row 1 (VStr attr)
              in case attr_cells within_tol ctx attr [0..<n_visits lc] of
                   Inl e \<Rightarrow> Inl e
                 | Inr vs \<Rightarrow>
                     (let ws = write_row cur_row (col_start_visits lc) vs ws;
                          ws = ws_cell ws cur_row (col_rtsm lc) (VStr [])
                      in Inr (ws, cur_row + 1)))))"

definition section_rows ::
  "(rat \<Rightarrow> rat \<Rightarrow> bool) \<Rightarrow> grid_ctx \<Rightarrow> layout_cols \<Rightarrow> string \<times> string list \<Rightarrow> grid \<times> nat
     \<Rightarrow> py_error + grid \<times> nat" where
  "section_rows within_tol ctx lc sec st =
     (case (sec, st) of ((section_title, attrs), (ws, cur_row)) \<Rightarrow>
        (case merge_cells ws cur_row 1 cur_row (n_left lc) of
           Inl e \<Rightarrow> Inl e
         | Inr ws \<Rightarrow>
             fold_err (attr_row within_tol ctx lc) attrs
               (ws_cell ws cur_row 1 (VStr section_title), cur_row + 1)))"

text \<open>Lines 298 to 304: the fixed RTSM row of the forms table.\<close>

definition rtsm_row :: "layout_cols \<Rightarrow> nat \<Rightarrow> nat \<Rightarrow> grid \<Rightarrow> grid" where
  "rtsm_row lc n_extra row_cursor ws =
     (let ws = ws_cell ws row_cursor 1 (VStr ''RTSM'');
          ws = ws_cell ws row_cursor 2 (VStr ''RTSM'');
          ws = ws_cell ws row_cursor 3 (VStr ''Library'');
          ws = ws_cell ws row_cursor (col_rtsm lc) (VStr ''X'')
      in write_row row_cursor (col_start_visits lc + n_visits lc) (replicate n_extra (VStr [])) ws)"

text \<open>Lines 307 to 335: the row of one form.\<close>

definition form_row ::
  "(rat \<Rightarrow> rat \<Rightarrow> bool) \<Rightarrow> grid_ctx \<Rightarrow> layout_cols \<Rightarrow> string list \<Rightarrow> string list \<Rightarrow> pyval list
     \<Rightarrow> grid \<times> nat \<Rightarrow> py_error + grid \<times> nat" where
  "form_row within_tol ctx lc extra_headers cols r st =
     (case st of (ws, row_cursor) \<Rightarrow>
        (let ws = write_row row_cursor 1 (form_identity_cells cols r) ws;
             ws = ws_cell ws row_cursor (col_rtsm lc) (VStr [])
         in case form_visit_cells within_tol cols r (zip (visit_labels ctx) (event_names ctx)) of
              Inl e \<Rightarrow> Inl e
            | Inr vs \<Rightarrow>
                (let ws = write_row row_cursor (col_start_visits lc) vs ws;
                     ws = write_row row_cursor (col_start_visits lc + n_visits lc)
                            (form_extra_cells cols r extra_headers) ws
                 in Inr (ws, row_cursor + 1))))"

text \<open>
  The body of \<^verbatim>\<open>build_schedule_layout\<close> between the reading of the two tables and the
  saving of the workbook (lines 64 to 347).
\<close>

record layout_config =
  event_config :: config
  left_columns :: "string list option"
  extra_headers :: "string list option"

definition default_left_columns :: "string list" where
  "default_left_columns = [''Form Label'', ''Form Name'', ''Source'']"

definition default_extra_headers :: "string list" where
  "default_extra_headers =
     [''Common Forms'', ''N/A'', ''Is Form Dynamic?'', ''Form Dynamic Criteria'',
      ''Additional Programming Instructions'']"

definition build_grid ::
  "(string \<Rightarrow> string \<Rightarrow> py_error + string) \<Rightarrow> (rat \<Rightarrow> rat \<Rightarrow> bool) \<Rightarrow> layout_config
     \<Rightarrow> visits_df \<Rightarrow> forms_df \<Rightarrow> py_error + grid" where
  "build_grid str_format within_tol cfg df_visits df_forms =
     (let vcols = map strip (v_columns df_visits);
          fcols = map strip (f_columns df_forms)
      in if ''Event Group'' \<notin> set vcols then Inl (KeyError ''Event Group'')
         else if ''Visit Name'' \<notin> set vcols then Inl (KeyError ''Visit Name'')
         else
           (case event_names_from str_format (event_config cfg) 0 (visits df_visits) of
              Inl e \<Rightarrow> Inl e
            | Inr names \<Rightarrow>
                (let groups = map event_group (visits df_visits);
                     labels = map visit_name (visits df_visits);
                     ctx = \<lparr>visit_groups = groups, visit_labels = labels, event_names = names,
                            rand_idx = rand_idx_of groups, df_columns = vcols,
                            df_rows = map visit_cells (visits df_visits)\<rparr>;
                     lefts = (case left_columns cfg of None \<Rightarrow> default_left_columns | Some l \<Rightarrow> l);
                     extras = (case extra_headers cfg of None \<Rightarrow> default_extra_headers | Some l \<Rightarrow> l);
                     lc = \<lparr>n_left = length lefts, col_rtsm = length lefts + 2,
                           col_start_visits = length lefts + 3, n_visits = length labels\<rparr>;
                     ws = header_fixed (length lefts + 1) (col_rtsm lc) (header_left lefts empty_grid)
                 in case row2_labels names of
                      Inl e \<Rightarrow> Inl e
                    | Inr row2 \<Rightarrow>
                        (let ws = write_row 2 (col_start_visits lc) (map VStr row2) ws;
                             ws = write_row 3 (col_start_visits lc) (map VStr names) ws
                         in case fold_err apply_merge (row1_merges (col_start_visits lc) groups) ws of
                              Inl e \<Rightarrow> Inl e
                            | Inr ws \<Rightarrow>
                                (let ws = header_extra (col_start_visits lc + n_visits lc) extras ws
                                 in case fold_err (section_rows within_tol ctx lc) sections (ws, 4) of
                                      Inl e \<Rightarrow> Inl e
                                    | Inr (ws, forms_start_row) \<Rightarrow>
                                        (let ws = rtsm_row lc (length extras) forms_start_row ws
                                         in case fold_err (form_row within_tol ctx lc extras fcols)
                                                   (f_rows df_forms) (ws, forms_start_row + 1) of
                                              Inl e \<Rightarrow> Inl e
                                            | Inr (ws, row_cursor) \<Rightarrow>
                                                Inr (ws\<lparr>g_freeze :=
                                                  Some (forms_start_row, col_rtsm lc)\<rparr>)))))))"

text \<open>
  \<^verbatim>\<open>build_schedule_layout\<close>. The two reads are the parameters \<open>read_excel\<close> and
  \<open>read_csv\<close>: each gives the table at a path or the exception the read raises. \<open>files\<close>
  are the workbooks on disk, by path; \<^verbatim>\<open>wb.save\<close> stores the workbook at the output
  path. The result is the returned path or the exception raised, with the files
  afterwards.
\<close>

definition build_schedule_layout ::
  "(string \<Rightarrow> string \<Rightarrow> py_error + string) \<Rightarrow> (rat \<Rightarrow> rat \<Rightarrow> bool)
     \<Rightarrow> (string \<Rightarrow> py_error + visits_df) \<Rightarrow> (string \<Rightarrow> py_error + forms_df)
     \<Rightarrow> (string \<rightharpoonup> grid) \<Rightarrow> string \<Rightarrow> string \<Rightarrow> string \<Rightarrow> layout_config
     \<Rightarrow> (py_error + string) \<times> (string \<rightharpoonup> grid)" where
  "build_schedule_layout str_format within_tol read_excel read_csv files
       visit_schedule_xlsx forms_csv output_xlsx cfg =
     (case read_excel visit_schedule_xlsx of
        Inl e \<Rightarrow> (Inl e, files)
      | Inr df_visits \<Rightarrow>
          (case read_csv forms_csv of
             Inl e \<Rightarrow> (Inl e, files)
           | Inr df_forms \<Rightarrow>
               (case build_grid str_format within_tol cfg df_visits df_forms of
                  Inl e \<Rightarrow> (Inl e, files)
                | Inr ws \<Rightarrow> (Inr output_xlsx, files(output_xlsx \<mapsto> ws)))))"

text \<open>\<^verbatim>\<open>generate_schedule_grid\<close> (lines 354 to 378) logs and raises again what the call raises.\<close>

definition generate_schedule_grid ::
  "(string \<Rightarrow> string \<Rightarrow> py_error + string) \<Rightarrow> (rat \<Rightarrow> rat \<Rightarrow> bool)
     \<Rightarrow> (string \<Rightarrow> py_error + visits_df) \<Rightarrow> (string \<Rightarrow> py_error + forms_df)
     \<Rightarrow> (string \<rightharpoonup> grid) \<Rightarrow> string \<Rightarrow> string \<Rightarrow> string \<Rightarrow> layout_config
     \<Rightarrow> (py_error + string) \<times> (string \<rightharpoonup> grid)" where
  "generate_schedule_grid str_format within_tol read_excel read_csv files
       visits_xlsx forms_csv output_xlsx cfg =
     build_schedule_layout str_format within_tol read_excel read_csv files
       visits_xlsx forms_csv output_xlsx cfg"

section \<open>Worksheets and workbooks of \<^verbatim>\<open>generate_ptd.py\<close>\<close>

text \<open>
  A worksheet as the spreadsheet library keeps it: its cells by (row, column), the newest
  entry of a position first; its merged ranges (first row, first column, last row, last
  column); and the row of the last append. A cell is a value with a style, or a merged
  cell: a place holder inside a merged range, which has a style and no value. The style
  has the attributes that \<^verbatim>\<open>generate_ptd.py\<close> sets; column widths and row heights are left
  out.
\<close>

record pattern_fill =
  fill_type :: "string option"
  start_color :: string
  end_color :: string

record font_style =
  bold :: bool
  italic :: bool

record cell_alignment =
  horizontal :: "string option"
  vertical :: "string option"
  wrap_text :: bool

record cell_border =
  b_left :: "string option"
  b_right :: "string option"
  b_top :: "string option"
  b_bottom :: "string option"

record style =
  font :: font_style
  alignment :: cell_alignment
  fill :: pattern_fill
  border :: cell_border
  number_format :: string

definition default_fill :: pattern_fill where
  "default_fill = \<lparr>fill_type = None, start_color = ''00000000'', end_color = ''00000000''\<rparr>"

definition default_style :: style where
  "default_style =
     \<lparr>font = \<lparr>bold = False, italic = False\<rparr>,
      alignment = \<lparr>horizontal = None, vertical = None, wrap_text = False\<rparr>,
      fill = default_fill,
      border = \<lparr>b_left = None, b_right = None, b_top = None, b_bottom = None\<rparr>,
      number_format = ''General''\<rparr>"

datatype cell = Cell pyval style | MergedCell style

record worksheet =
  cells :: "((nat \<times> nat) \<times> cell) list"
  merged_ranges :: "(nat \<times> nat \<times> nat \<times> nat) list"
  current_row :: nat

type_synonym workbook = "(string \<times> worksheet) list"

definition empty_sheet :: worksheet where
  "empty_sheet = \<lparr>cells = [], merged_ranges = [], current_row = 0\<rparr>"

definition cell_at :: "worksheet \<Rightarrow> nat \<times> nat \<Rightarrow> cell option" where
  "cell_at ws rc = map_of (cells ws) rc"

definition value_of :: "cell \<Rightarrow> pyval" where
  "value_of c = (case c of Cell v st \<Rightarrow> v | MergedCell st \<Rightarrow> VNone)"

definition style_of :: "cell \<Rightarrow> style" where
  "style_of c = (case c of Cell v st \<Rightarrow> st | MergedCell st \<Rightarrow> st)"

text \<open>The value and the fill read at a position; a position without a cell reads as a new cell.\<close>

definition value_at :: "worksheet \<Rightarrow> nat \<times> nat \<Rightarrow> pyval" where
  "value_at ws rc = (case cell_at ws rc of None \<Rightarrow> VNone | Some c \<Rightarrow> value_of c)"

definition style_at :: "worksheet \<Rightarrow> nat \<times> nat \<Rightarrow> style" where
  "style_at ws rc = (case cell_at ws rc of None \<Rightarrow> default_style | Some c \<Rightarrow> style_of c)"

definition fill_at :: "worksheet \<Rightarrow> nat \<times> nat \<Rightarrow> pattern_fill" where
  "fill_at ws rc = fill (style_at ws rc)"

text \<open>\<^verbatim>\<open>max_row\<close> and \<^verbatim>\<open>max_column\<close>: the largest row and column of a cell, 1 without cells.\<close>

definition max_row :: "worksheet \<Rightarrow> nat" where
  "max_row ws = fold max (map (\<lambda>(rc, c). fst rc) (cells ws)) 1"

definition max_column :: "worksheet \<Rightarrow> nat" where
  "max_column ws = fold max (map (\<lambda>(rc, c). snd rc) (cells ws)) 1"

definition store :: "nat \<times> nat \<Rightarrow> cell \<Rightarrow> worksheet \<Rightarrow> worksheet" where
  "store rc c ws = ws\<lparr>cells := (rc, c) # cells ws\<rparr>"

text \<open>A cell made by \<^verbatim>\<open>ws.cell\<close> moves the row of the last append.\<close>

definition add_cell :: "nat \<times> nat \<Rightarrow> cell \<Rightarrow> worksheet \<Rightarrow> worksheet" where
  "add_cell rc c ws = ws\<lparr>cells := (rc, c) # cells ws, current_row := max (fst rc) (current_row ws)\<rparr>"

text \<open>
  \<^verbatim>\<open>ws.cell(row, column, value)\<close>: the cell is made when the position has none; a value
  other than \<^verbatim>\<open>None\<close> is stored, and storing into a merged cell raises
  \<^verbatim>\<open>AttributeError\<close>.
\<close>

definition sheet_cell :: "worksheet \<Rightarrow> nat \<times> nat \<Rightarrow> pyval \<Rightarrow> py_error + worksheet" where
  "sheet_cell ws rc v =
     (case cell_at ws rc of
        None \<Rightarrow> Inr (add_cell rc (Cell v default_style) ws)
      | Some (Cell old st) \<Rightarrow> Inr (if v = VNone then ws else store rc (Cell v st) ws)
      | Some (MergedCell st) \<Rightarrow> if v = VNone then Inr ws else Inl AttributeError)"

text \<open>The style of the cell at a position changed by \<open>f\<close>; the cell is made when there is none.\<close>

definition set_style :: "(style \<Rightarrow> style) \<Rightarrow> nat \<times> nat \<Rightarrow> worksheet \<Rightarrow> worksheet" where
  "set_style f rc ws =
     (case cell_at ws rc of
        None \<Rightarrow> add_cell rc (Cell VNone (f default_style)) ws
      | Some (Cell v st) \<Rightarrow> store rc (Cell v (f st)) ws
      | Some (MergedCell st) \<Rightarrow> store rc (MergedCell (f st)) ws)"

text \<open>
  \<^verbatim>\<open>ws.merge_cells\<close> of a range: the top left cell is made when there is none, every
  other position of the range gets a new merged cell, and the range is recorded.
\<close>

definition sheet_merge_cells :: "nat \<times> nat \<times> nat \<times> nat \<Rightarrow> worksheet \<Rightarrow> worksheet" where
  "sheet_merge_cells rng ws =
     (case rng of (r1, c1, r2, c2) \<Rightarrow>
        (let ws = (case cell_at ws (r1, c1) of
                     None \<Rightarrow> add_cell (r1, c1) (Cell VNone default_style) ws
                   | Some c \<Rightarrow> ws);
             ws = fold (\<lambda>rc. store rc (MergedCell default_style)) (tl (range_cells r1 c1 r2 c2)) ws
         in ws\<lparr>merged_ranges := merged_ranges ws @ [rng]\<rparr>))"

text \<open>\<^verbatim>\<open>ws.append(values)\<close>: new cells in the row after the last append, from column 1 on.\<close>

definition sheet_append :: "pyval list \<Rightarrow> worksheet \<Rightarrow> worksheet" where
  "sheet_append vals ws =
     (let row_idx = current_row ws + 1;
          ws = fold (\<lambda>(col_idx, content). store (row_idx, col_idx) (Cell content default_style))
                 (enumerate 1 vals) ws
      in ws\<lparr>current_row := row_idx\<rparr>)"

text \<open>
  \<^verbatim>\<open>ws.iter_rows()\<close> runs over the rows 1 to \<^verbatim>\<open>max_row\<close> and the columns 1 to
  \<^verbatim>\<open>max_column\<close>, and over nothing on a sheet that never got a cell. It reads a position
  without a cell as a new, empty cell.
\<close>

definition row_indices :: "worksheet \<Rightarrow> nat list" where
  "row_indices ws = (if current_row ws = 0 then [] else [1..<Suc (max_row ws)])"

definition col_indices :: "worksheet \<Rightarrow> nat list" where
  "col_indices ws = [1..<Suc (max_column ws)]"

definition src_cell :: "worksheet \<Rightarrow> nat \<times> nat \<Rightarrow> cell" where
  "src_cell ws rc = (case cell_at ws rc of None \<Rightarrow> Cell VNone default_style | Some c \<Rightarrow> c)"

section \<open>Copying a worksheet\<close>

text \<open>
  The style copied from a source cell onto a destination cell (lines 180 to 219, and
  again 262 to 301): nothing for a source cell without a style of its own; else font,
  alignment and border, the fill when it has a fill type, and the number format when it
  is not empty.
\<close>

definition truthy_str :: "string option \<Rightarrow> bool" where
  "truthy_str s = (case s of None \<Rightarrow> False | Some t \<Rightarrow> t \<noteq> [])"

definition copy_cell_style :: "style \<Rightarrow> style \<Rightarrow> style" where
  "copy_cell_style src dst =
     (if src = default_style then dst
      else dst\<lparr>font := font src,
               alignment := alignment src,
               fill := (if truthy_str (fill_type (fill src)) then fill src else fill dst),
               border := border src,
               number_format := (if number_format src \<noteq> [] then number_format src
                                 else number_format dst)\<rparr>)"

text \<open>
  \<^verbatim>\<open>_copy_worksheet_contents\<close> (lines 157 to 219): the merged ranges first, then every
  cell of the source that is not a merged cell, with its value and its style.
\<close>

definition copy_cell :: "worksheet \<Rightarrow> nat \<times> nat \<Rightarrow> worksheet \<Rightarrow> py_error + worksheet" where
  "copy_cell src_ws rc dest_ws =
     (case src_cell src_ws rc of
        MergedCell st \<Rightarrow> Inr dest_ws
      | Cell v st \<Rightarrow>
          (case sheet_cell dest_ws rc v of
             Inl e \<Rightarrow> Inl e
           | Inr dest_ws \<Rightarrow> Inr (set_style (copy_cell_style st) rc dest_ws)))"

definition iter_positions :: "worksheet \<Rightarrow> (nat \<times> nat) list" where
  "iter_positions ws = concat (map (\<lambda>r. map (\<lambda>c. (r, c)) (col_indices ws)) (row_indices ws))"

definition copy_worksheet_contents :: "worksheet \<Rightarrow> worksheet \<Rightarrow> py_error + worksheet" where
  "copy_worksheet_contents src_ws dest_ws =
     fold_err (copy_cell src_ws) (iter_positions src_ws)
       (fold sheet_merge_cells (merged_ranges src_ws) dest_ws)"

text \<open>
  \<^verbatim>\<open>_copy_worksheet_values_only\<close> (lines 222 to 247): the values of each row appended,
  then the merged ranges.
\<close>

definition copy_worksheet_values_only :: "worksheet \<Rightarrow> worksheet \<Rightarrow> worksheet" where
  "copy_worksheet_values_only src_ws dest_ws =
     fold sheet_merge_cells (merged_ranges src_ws)
       (fold (\<lambda>r. sheet_append (map (\<lambda>c. value_of (src_cell src_ws (r, c))) (col_indices src_ws)))
          (row_indices src_ws) dest_ws)"

text \<open>
  \<^verbatim>\<open>_copy_header_styles\<close> (lines 250 to 304): the styles of the first rows of the source
  put on the cells of the destination.
\<close>

definition copy_header_styles :: "worksheet \<Rightarrow> nat \<Rightarrow> worksheet \<Rightarrow> worksheet" where
  "copy_header_styles src_ws max_header_rows dest_ws =
     fold (\<lambda>rc. set_style (copy_cell_style (style_of (src_cell src_ws rc))) rc)
       (range_cells 1 1 (min max_header_rows (max_row src_ws)) (max_column src_ws)) dest_ws"

section \<open>Replacing the two sheets of the template\<close>

text \<open>
  Lines 330 to 348 of \<^verbatim>\<open>generate_ptd.py\<close>. A workbook is the list of its sheets with
  their titles, in sheet order. \<open>remove_sheet\<close> is \<^verbatim>\<open>wb.remove(wb[name])\<close>, \<open>index_of\<close> is
  \<^verbatim>\<open>list.index\<close> and \<open>create_sheet\<close> is \<^verbatim>\<open>wb.create_sheet(title, index)\<close>, which inserts
  like \<^verbatim>\<open>list.insert\<close> and appends without an index. The new sheet is given with the
  content copied into it afterwards.
\<close>

fun remove_sheet :: "string \<Rightarrow> workbook \<Rightarrow> workbook" where
  "remove_sheet name [] = []"
| "remove_sheet name (s # ss) = (if fst s = name then ss else s # remove_sheet name ss)"

fun index_of :: "string \<Rightarrow> string list \<Rightarrow> nat" where
  "index_of name [] = 0"
| "index_of name (n # ns) = (if n = name then 0 else Suc (index_of name ns))"

definition create_sheet :: "string \<Rightarrow> worksheet \<Rightarrow> nat option \<Rightarrow> workbook \<Rightarrow> workbook" where
  "create_sheet title content index wb =
     (case index of
        None \<Rightarrow> wb @ [(title, content)]
      | Some i \<Rightarrow> take i wb @ [(title, content)] @ drop i wb)"

definition place_sheets ::
  "workbook \<Rightarrow> string \<Rightarrow> string \<Rightarrow> worksheet \<Rightarrow> worksheet \<Rightarrow> workbook" where
  "place_sheets wb_template schedule_sheet_name forms_sheet_name dest_schedule dest_forms =
     (let (schedule_index, wb) =
            (if schedule_sheet_name \<in> set (map fst wb_template)
             then (Some (index_of schedule_sheet_name (map fst wb_template)),
                   remove_sheet schedule_sheet_name wb_template)
             else (None, wb_template));
          (forms_index, wb) =
            (if forms_sheet_name \<in> set (map fst wb)
             then (Some (index_of forms_sheet_name (map fst wb)), remove_sheet forms_sheet_name wb)
             else (None, wb));
          wb = create_sheet schedule_sheet_name dest_schedule schedule_index wb
      in create_sheet forms_sheet_name dest_forms forms_index wb)"

text \<open>The copy of a generated sheet into its new, empty sheet (lines 355 to 363).\<close>

definition copied_sheet :: "bool \<Rightarrow> nat \<Rightarrow> worksheet \<Rightarrow> py_error + worksheet" where
  "copied_sheet fast max_header_rows src_ws =
     (if fast
      then Inr (copy_header_styles src_ws max_header_rows
                  (copy_worksheet_values_only src_ws empty_sheet))
      else copy_worksheet_contents src_ws empty_sheet)"

text \<open>
  \<^verbatim>\<open>replace_sheets_in_template\<close> on the workbooks on disk: the three workbooks are
  loaded, the first sheet of each generated workbook is copied, and the result is saved
  at the output path.
\<close>

definition load_workbook :: "(string \<rightharpoonup> workbook) \<Rightarrow> string \<Rightarrow> py_error + workbook" where
  "load_workbook files path = (case files path of None \<Rightarrow> Inl (ReadError path) | Some wb \<Rightarrow> Inr wb)"

definition first_sheet :: "workbook \<Rightarrow> py_error + worksheet" where
  "first_sheet wb = (case wb of [] \<Rightarrow> Inl IndexError | s # ss \<Rightarrow> Inr (snd s))"

definition replace_sheets_in_template ::
  "(string \<rightharpoonup> workbook) \<Rightarrow> string \<Rightarrow> string \<Rightarrow> string \<Rightarrow> string \<Rightarrow> string \<Rightarrow> string \<Rightarrow> bool
     \<Rightarrow> (py_error + string) \<times> (string \<rightharpoonup> workbook)" where
  "replace_sheets_in_template files template_xlsx schedule_xlsx forms_xlsx out_xlsx
       schedule_sheet_name forms_sheet_name fast =
     (case load_workbook files template_xlsx of
        Inl e \<Rightarrow> (Inl e, files)
      | Inr wb_template \<Rightarrow>
     (case load_workbook files schedule_xlsx of
        Inl e \<Rightarrow> (Inl e, files)
      | Inr wb_schedule \<Rightarrow>
     (case load_workbook files forms_xlsx of
        Inl e \<Rightarrow> (Inl e, files)
      | Inr wb_forms \<Rightarrow>
     (case first_sheet wb_schedule of
        Inl e \<Rightarrow> (Inl e, files)
      | Inr src_schedule \<Rightarrow>
     (case first_sheet wb_forms of
        Inl e \<Rightarrow> (Inl e, files)
      | Inr src_forms \<Rightarrow>
     (case copied_sheet fast 5 src_schedule of
        Inl e \<Rightarrow> (Inl e, files)
      | Inr dest_schedule \<Rightarrow>
     (case copied_sheet fast 3 src_forms of
        Inl e \<Rightarrow> (Inl e, files)
      | Inr dest_forms \<Rightarrow>
          (Inr out_xlsx,
           files(out_xlsx \<mapsto>
             place_sheets wb_template schedule_sheet_name forms_sheet_name
               dest_schedule dest_forms)))))))))"

section \<open>Formatting the forms sheet\<close>

text \<open>
  \<^verbatim>\<open>auto_format_sheet\<close> (lines 382 to 418; the column widths of lines 420 to 432 are left
  out). \<^verbatim>\<open>sheet[r]\<close> is the cells of row \<open>r\<close> in the columns 1 to \<^verbatim>\<open>max_column\<close>; a
  position without a cell gets one. \<^verbatim>\<open>skip_fill_rows\<close> is the list of its rows.
\<close>

definition header_fill :: pattern_fill where
  "header_fill = \<lparr>fill_type = Some ''solid'', start_color = ''D9E1F2'', end_color = ''D9E1F2''\<rparr>"

definition header_font :: font_style where
  "header_font = \<lparr>bold = True, italic = False\<rparr>"

definition center_align :: cell_alignment where
  "center_align = \<lparr>horizontal = Some ''center'', vertical = Some ''center'', wrap_text = True\<rparr>"

definition thin_border :: cell_border where
  "thin_border = \<lparr>b_left = Some ''thin'', b_right = Some ''thin'', b_top = Some ''thin'',
                   b_bottom = Some ''thin''\<rparr>"

definition header_style :: "nat list \<Rightarrow> nat \<times> nat \<Rightarrow> style \<Rightarrow> style" where
  "header_style skip_fill_rows rc st =
     (case rc of (r, col_idx) \<Rightarrow>
        (let fill_type = fill_type (fill st);
             beyond_ctdm = (r = 1 \<and> 4 < col_idx)
         in st\<lparr>font := header_font,
               alignment := center_align,
               fill := (if \<not> truthy_str fill_type \<and> r \<notin> set skip_fill_rows \<and> \<not> beyond_ctdm
                        then header_fill else fill st),
               border := thin_border\<rparr>))"

definition data_style :: "style \<Rightarrow> style" where
  "data_style st =
     st\<lparr>alignment := \<lparr>horizontal = None, vertical = Some ''center'', wrap_text = True\<rparr>,
        border := thin_border\<rparr>"

definition style_header_row :: "nat list \<Rightarrow> nat \<Rightarrow> worksheet \<Rightarrow> worksheet" where
  "style_header_row skip_fill_rows r sheet =
     fold (\<lambda>c. set_style (header_style skip_fill_rows (r, c)) (r, c)) (col_indices sheet) sheet"

definition auto_format_sheet :: "worksheet \<Rightarrow> nat \<Rightarrow> nat list \<Rightarrow> worksheet" where
  "auto_format_sheet sheet header_rows skip_fill_rows =
     (let header_rows = max 1 (min header_rows (max_row sheet));
          sheet = fold (style_header_row skip_fill_rows) [1..<Suc header_rows] sheet
      in fold (set_style data_style)
           (range_cells (header_rows + 1) 1 (max_row sheet) (max_column sheet)) sheet)"

section \<open>Auxiliary definitions for the proofs\<close>

text \<open>
  \<open>spans\<close> is the merge loop without its accumulator, the last merge included;
  \<open>tiling a ms b\<close> says that the ranges \<open>ms\<close> are non-empty and cover the columns from
  \<open>a\<close> up to \<open>b - 1\<close> one after the other.
\<close>

fun spans :: "nat \<Rightarrow> string list \<Rightarrow> string \<Rightarrow> nat \<Rightarrow> merge_range list" where
  "spans c [] cur start = [\<lparr>start_col = start, end_col = c - 1, anchor = cur\<rparr>]"
| "spans c (g # gs) cur start =
     (if g \<noteq> cur
      then \<lparr>start_col = start, end_col = c - 1, anchor = cur\<rparr> # spans (Suc c) gs g c
      else spans (Suc c) gs cur start)"

fun tiling :: "nat \<Rightarrow> merge_range list \<Rightarrow> nat \<Rightarrow> bool" where
  "tiling a [] b = (a = b)"
| "tiling a (m # ms) b = (start_col m = a \<and> a \<le> end_col m \<and> tiling (Suc (end_col m)) ms b)"

text \<open>
  For the copies: the positions of a merged range other than its top left corner, the
  positions that the merged ranges of a sheet turn into merged cells, whether a position
  holds a merged cell, and the condition on a source sheet that these positions hold no
  value (the library keeps merged cells there).
\<close>

definition inner_positions :: "nat \<times> nat \<times> nat \<times> nat \<Rightarrow> (nat \<times> nat) list" where
  "inner_positions rng = (case rng of (r1, c1, r2, c2) \<Rightarrow> tl (range_cells r1 c1 r2 c2))"

definition merged_positions :: "worksheet \<Rightarrow> (nat \<times> nat) list" where
  "merged_positions ws = concat (map inner_positions (merged_ranges ws))"

definition merged_at :: "worksheet \<Rightarrow> nat \<times> nat \<Rightarrow> bool" where
  "merged_at ws rc = (case cell_at ws rc of Some (MergedCell st) \<Rightarrow> True | _ \<Rightarrow> False)"

definition merged_ok :: "worksheet \<Rightarrow> bool" where
  "merged_ok ws = list_all (\<lambda>rc. value_of (src_cell ws rc) = VNone) (merged_positions ws)"

section \<open>Facts about strings and the matcher\<close>

lemma starts_with_iff: "starts_with s sub \<longleftrightarrow> (\<exists>q. s = sub @ q)"
  by (induction s sub rule: starts_with.induct) auto

lemma contains_iff: "contains s sub \<longleftrightarrow> (\<exists>p q. s = p @ sub @ q)"
proof (induction s)
  case Nil
  then show ?case by auto
next
  case (Cons x xs)
  show ?case
  proof
    assume "contains (x # xs) sub"
    then consider "starts_with (x # xs) sub" | "contains xs sub" by auto
    then show "\<exists>p q. x # xs = p @ sub @ q"
    proof cases
      case 1
      then obtain q where "x # xs = [] @ sub @ q" by (auto simp: starts_with_iff)
      then show ?thesis by blast
    next
      case 2
      then obtain p q where "xs = p @ sub @ q" using Cons.IH by blast
      then have "x # xs = (x # p) @ sub @ q" by simp
      then show ?thesis by blast
    qed
  next
    assume "\<exists>p q. x # xs = p @ sub @ q"
    then obtain p q where pq: "x # xs = p @ sub @ q" by blast
    show "contains (x # xs) sub"
    proof (cases p)
      case Nil
      with pq have "starts_with (x # xs) sub" by (simp add: starts_with_iff)
      then show ?thesis by simp
    next
      case (Cons y ys)
      with pq have "xs = ys @ sub @ q" by simp
      then show ?thesis using Cons.IH by auto
    qed
  qed
qed

lemma contains_rev: "contains (rev s) (rev sub) = contains s sub"
proof -
  have "(\<exists>p q. rev s = p @ rev sub @ q) \<longleftrightarrow> (\<exists>p q. s = p @ sub @ q)"
  proof
    assume "\<exists>p q. rev s = p @ rev sub @ q"
    then obtain p q where "rev s = p @ rev sub @ q" by blast
    then have "s = rev q @ sub @ rev p" by (metis append.assoc rev_append rev_rev_ident)
    then show "\<exists>p q. s = p @ sub @ q" by blast
  next
    assume "\<exists>p q. s = p @ sub @ q"
    then obtain p q where "s = p @ sub @ q" by blast
    then have "rev s = rev q @ rev sub @ rev p" by simp
    then show "\<exists>p q. rev s = p @ rev sub @ q" by blast
  qed
  then show ?thesis by (simp add: contains_iff)
qed

lemma contains_dropWhile:
  "\<not> is_space c \<Longrightarrow> contains (dropWhile is_space s) (c # cs) = contains s (c # cs)"
  by (induction s) auto

lemma contains_strip:
  assumes "sub \<noteq> []" and "\<not> is_space (hd sub)" and "\<not> is_space (last sub)"
  shows "contains (strip s) sub = contains s sub"
proof -
  obtain c cs where sub: "sub = c # cs" using assms(1) by (cases sub) auto
  obtain d ds where rsub: "rev sub = d # ds" using assms(1) by (cases "rev sub") auto
  have d: "\<not> is_space d" using rsub assms(1,3) by (metis hd_rev list.sel(1))
  have c: "\<not> is_space c" using sub assms(2) by simp
  have "contains (strip s) sub = contains (dropWhile is_space (rev (dropWhile is_space s))) (rev sub)"
    unfolding strip_def using contains_rev [of "dropWhile is_space (rev (dropWhile is_space s))" "rev sub"]
    by simp
  also have "\<dots> = contains (rev (dropWhile is_space s)) (rev sub)"
    unfolding rsub by (rule contains_dropWhile [OF d])
  also have "\<dots> = contains (dropWhile is_space s) sub"
    by (rule contains_rev)
  also have "\<dots> = contains s sub"
    unfolding sub by (rule contains_dropWhile [OF c])
  finally show ?thesis .
qed

lemma is_space_lower_char: "is_space (lower_char x) = is_space x"
  by (auto simp: lower_char_def is_upper_def is_space_def Let_def)

lemma lower_strip: "lower (strip s) = strip (lower s)"
proof -
  have comp: "is_space \<circ> lower_char = is_space"
    by (rule ext) (simp add: is_space_lower_char)
  have dw: "dropWhile is_space (map lower_char xs) = map lower_char (dropWhile is_space xs)" for xs
    by (simp add: dropWhile_map comp)
  show ?thesis
    by (simp add: lower_def strip_def dw rev_map)
qed

text \<open>Stripping the group does not change which of the three keywords it contains.\<close>

lemma contains_lower_strip:
  assumes "sub \<noteq> []" and "\<not> is_space (hd sub)" and "\<not> is_space (last sub)"
  shows "contains (lower (strip s)) sub = contains (lower s) sub"
  by (simp add: lower_strip contains_strip [OF assms])

lemma keyword_strip:
  "contains (lower (strip s)) ''screen'' = contains (lower s) ''screen''"
  "contains (lower (strip s)) ''random'' = contains (lower s) ''random''"
  "contains (lower (strip s)) ''rtsm'' = contains (lower s) ''rtsm''"
  by (rule contains_lower_strip; simp add: is_space_def)+

lemma consume_Some: "consume x r = Some m \<Longrightarrow> \<exists>g0 g1. r = Some (g0, g1) \<and> m = (x # g0, g1)"
  by (cases r) (auto simp: consume_def)

lemma capture_Some: "capture x r = Some m \<Longrightarrow> \<exists>g0 g1. r = Some (g0, g1) \<and> m = (x # g0, x # g1)"
  by (cases r) (auto simp: capture_def)

text \<open>A pattern with a literal character matches only a text that has this character.\<close>

lemma re_match_lit: "re_match ts prev s = Some m \<Longrightarrow> Lit c \<in> set ts \<Longrightarrow> c \<in> set s"
proof (induction ts prev s arbitrary: m rule: re_match.induct)
  case (4 c' ts prev x xs)
  then show ?case by (auto split: if_splits dest!: consume_Some)
next
  case (6 ts prev x xs)
  then show ?case by (auto split: if_splits option.splits dest!: consume_Some)
next
  case (8 ts prev x xs)
  then show ?case by (auto split: if_splits dest!: capture_Some)
next
  case (10 ts prev x xs)
  then show ?case by (auto split: if_splits option.splits dest!: capture_Some)
qed (auto split: if_splits)

lemma re_search_from_lit:
  "re_search_from ts prev s = Some m \<Longrightarrow> Lit c \<in> set ts \<Longrightarrow> c \<in> set s"
  by (induction ts prev s rule: re_search_from.induct)
     (auto split: option.splits dest: re_match_lit)

lemma re_search_no_lit: "Lit c \<in> set ts \<Longrightarrow> c \<notin> set s \<Longrightarrow> re_search ts s = None"
  unfolding re_search_def using re_search_from_lit [of ts None s _ c]
  by (cases "re_search_from ts None s") auto

lemma lower_char_not_upper: "\<not> is_upper (lower_char x)"
  by (auto simp: lower_char_def is_upper_def Let_def)

lemma is_upper_not_in_lower: "is_upper c \<Longrightarrow> c \<notin> set (lower s)"
  using lower_char_not_upper by (auto simp: lower_def)

lemma is_upper_V: "is_upper CHR ''V''"
  by (simp add: is_upper_def)

lemma is_upper_P: "is_upper CHR ''P''"
  by (simp add: is_upper_def)

text \<open>None of the three patterns matches a lower-cased text.\<close>

lemma search_V_lower: "re_search pat_V (lower s) = None"
  by (rule re_search_no_lit [of "CHR ''V''"])
     (simp_all add: pat_V_def is_upper_not_in_lower is_upper_V)

lemma search_Visit_lower: "re_search pat_Visit (lower s) = None"
  by (rule re_search_no_lit [of "CHR ''V''"])
     (simp_all add: pat_Visit_def is_upper_not_in_lower is_upper_V)

lemma search_P_lower: "re_search pat_P (lower s) = None"
  by (rule re_search_no_lit [of "CHR ''P''"])
     (simp_all add: pat_P_def is_upper_not_in_lower is_upper_P)

lemma make_event_name_other:
  assumes "\<not> contains (lower (strip grp)) ''screen''"
    and "\<not> contains (lower (strip grp)) ''random''"
    and "\<not> contains (lower (strip grp)) ''rtsm''"
  shows "make_event_name str_format grp label idx cfg = Inr (CHR ''V'' # str_int (idx + 1))"
  using assms
  by (simp add: make_event_name_def Let_def search_V_lower search_Visit_lower search_P_lower
      or_else_def)

section \<open>Claims about \<^verbatim>\<open>make_event_name\<close>\<close>

text \<open>
  C1. The claim: for a group without "screen", "random" or "rtsm", the visit label is
  searched for \<^verbatim>\<open>V<digits>\<close>, \<^verbatim>\<open>Visit <digits>\<close>, \<^verbatim>\<open>P<digits>\<close>, and a match gives the
  template formatted with the matched number. The code searches the lower-cased label
  with patterns that need an upper-case letter: on the group "Treatment" and the label
  "V5" at position 0 the first pattern matches the label itself with the number 5, and
  \<open>make_event_name\<close> returns the positional name "V1", whatever the formatting does.
\<close>

theorem make_event_name_V5_gives_V1:
  "re_search pat_V ''V5'' = Some (''V5'', ''5'') \<and>
   make_event_name str_format ''Treatment'' ''V5'' 0 \<lparr>event_name_mapping = None\<rparr> = Inr ''V1''"
  by code_simp

text \<open>
  C10. For every group that does not contain "screen", "random" or "rtsm", compared
  case-insensitively, and for every label, position and configuration,
  \<open>make_event_name\<close> returns "V" followed by the position plus one: the label has no
  influence on the result.
\<close>

theorem make_event_name_fallback:
  assumes "\<not> contains (lower grp) ''screen''"
    and "\<not> contains (lower grp) ''random''"
    and "\<not> contains (lower grp) ''rtsm''"
  shows "make_event_name str_format grp label idx cfg = Inr (CHR ''V'' # str_int (idx + 1))"
  using assms by (intro make_event_name_other) (simp_all add: keyword_strip)

theorem make_event_name_fallback_witness:
  "\<not> contains (lower ''Treatment'') ''screen'' \<and>
   \<not> contains (lower ''Treatment'') ''random'' \<and>
   \<not> contains (lower ''Treatment'') ''rtsm'' \<and>
   make_event_name (\<lambda>t n. Inr (t @ n)) ''Treatment'' ''Visit 3'' 4 \<lparr>event_name_mapping = None\<rparr>
     = Inr ''V5''"
proof -
  have h1: "\<not> contains (lower ''Treatment'') ''screen''" by code_simp
  have h2: "\<not> contains (lower ''Treatment'') ''random''" by code_simp
  have h3: "\<not> contains (lower ''Treatment'') ''rtsm''" by code_simp
  have s: "str_int 5 = ''5''" by code_simp
  show ?thesis
    using make_event_name_fallback [OF h1 h2 h3, of "\<lambda>t n. Inr (t @ n)" "''Visit 3''" 4
        "\<lparr>event_name_mapping = None\<rparr>"] h1 h2 h3
    by (simp add: s)
qed

section \<open>Row 1: the merges partition the visit columns\<close>

lemma merge_loop_spans:
  "\<exists>cur' start' ms'. merge_loop c gs (Some (cur, start)) ms = (Some (cur', start'), ms') \<and>
     ms' @ [\<lparr>start_col = start', end_col = c + length gs - 1, anchor = cur'\<rparr>]
       = ms @ spans c gs cur start"
proof (induction gs arbitrary: c cur start ms)
  case Nil
  then show ?case by simp
next
  case (Cons g gs)
  show ?case
  proof (cases "g = cur")
    case True
    then show ?thesis using Cons.IH [of "Suc c" cur start ms] by simp
  next
    case False
    then show ?thesis
      using Cons.IH [of "Suc c" g c "ms @ [\<lparr>start_col = start, end_col = c - 1, anchor = cur\<rparr>]"]
      by simp
  qed
qed

lemma row1_merges_Nil: "row1_merges cs [] = []"
  by (simp add: row1_merges_def)

lemma row1_merges_Cons: "row1_merges cs (g # gs) = spans (Suc cs) gs g cs"
proof -
  obtain cur' start' ms' where
    l: "merge_loop (Suc cs) gs (Some (g, cs)) [] = (Some (cur', start'), ms')" and
    e: "ms' @ [\<lparr>start_col = start', end_col = Suc cs + length gs - 1, anchor = cur'\<rparr>]
          = [] @ spans (Suc cs) gs g cs"
    using merge_loop_spans [of "Suc cs" gs g cs "[]"] by blast
  show ?thesis using l e by (simp add: row1_merges_def)
qed

lemma spans_tiling: "start < c \<Longrightarrow> tiling start (spans c gs cur start) (c + length gs)"
proof (induction gs arbitrary: c cur start)
  case Nil
  then show ?case by auto
next
  case (Cons g gs)
  show ?case
  proof (cases "g = cur")
    case True
    then show ?thesis using Cons.IH [of start "Suc c" cur] Cons.prems by simp
  next
    case False
    then show ?thesis using Cons.IH [of c "Suc c" g] Cons.prems by simp
  qed
qed

lemma spans_start_ge: "m \<in> set (spans c gs cur start) \<Longrightarrow> start < c \<Longrightarrow> start \<le> start_col m"
proof (induction gs arbitrary: c cur start)
  case Nil
  then show ?case by simp
next
  case (Cons g gs)
  then show ?case by (fastforce split: if_splits)
qed

lemma spans_hd: "spans c gs cur start \<noteq> [] \<and> anchor (hd (spans c gs cur start)) = cur"
  by (induction gs arbitrary: c start) auto

lemma spans_distinct_adj: "distinct_adj (map anchor (spans c gs cur start))"
proof (induction gs arbitrary: c cur start)
  case Nil
  then show ?case by simp
next
  case (Cons g gs)
  show ?case
  proof (cases "g = cur")
    case True
    then show ?thesis using Cons.IH by simp
  next
    case False
    have "hd (map anchor (spans (Suc c) gs g c)) = g"
      using spans_hd [of "Suc c" gs g c] by (simp add: hd_map)
    with False show ?thesis
      using Cons.IH [of "Suc c" g c] spans_hd [of "Suc c" gs g c]
      by (simp add: distinct_adj_Cons)
  qed
qed

lemma spans_anchor:
  "m \<in> set (spans c gs cur start) \<Longrightarrow> start < c \<Longrightarrow> covers m col \<Longrightarrow> col < c + length gs \<Longrightarrow>
   anchor m = (if col < c then cur else gs ! (col - c))"
proof (induction gs arbitrary: c cur start)
  case Nil
  then show ?case by (auto simp: covers_def)
next
  case (Cons g gs)
  show ?case
  proof (cases "g = cur")
    case True
    with Cons.prems have m: "m \<in> set (spans (Suc c) gs cur start)" by simp
    have "anchor m = (if col < Suc c then cur else gs ! (col - Suc c))"
      using Cons.IH [OF m] Cons.prems by simp
    then show ?thesis using True by (auto simp: nth_Cons')
  next
    case False
    with Cons.prems consider "m = \<lparr>start_col = start, end_col = c - 1, anchor = cur\<rparr>"
      | "m \<in> set (spans (Suc c) gs g c)" by auto
    then show ?thesis
    proof cases
      case 1
      then show ?thesis using Cons.prems by (auto simp: covers_def)
    next
      case 2
      have ge: "c \<le> start_col m" using spans_start_ge [OF 2] by simp
      then have c: "c \<le> col" using Cons.prems(3) by (simp add: covers_def)
      have "anchor m = (if col < Suc c then g else gs ! (col - Suc c))"
        using Cons.IH [OF 2] Cons.prems by simp
      then show ?thesis using c by (auto simp: nth_Cons')
    qed
  qed
qed

lemma tiling_le: "tiling a ms b \<Longrightarrow> a \<le> b"
proof (induction ms arbitrary: a)
  case Nil
  then show ?case by simp
next
  case (Cons m ms)
  show ?case using Cons.prems Cons.IH [of "Suc (end_col m)"] by auto
qed

lemma tiling_nth:
  "tiling a ms b \<Longrightarrow> i < length ms \<Longrightarrow>
     a \<le> start_col (ms ! i) \<and> start_col (ms ! i) \<le> end_col (ms ! i) \<and> end_col (ms ! i) < b"
proof (induction ms arbitrary: a i)
  case Nil
  then show ?case by simp
next
  case (Cons m ms)
  show ?case
  proof (cases i)
    case 0
    then show ?thesis using Cons.prems tiling_le [of "Suc (end_col m)" ms b] by auto
  next
    case (Suc k)
    then show ?thesis using Cons.prems Cons.IH [of "Suc (end_col m)" k] by auto
  qed
qed

lemma tiling_succ:
  "tiling a ms b \<Longrightarrow> Suc i < length ms \<Longrightarrow> start_col (ms ! Suc i) = Suc (end_col (ms ! i))"
proof (induction ms arbitrary: a i)
  case Nil
  then show ?case by simp
next
  case (Cons m ms)
  show ?case
  proof (cases i)
    case 0
    then show ?thesis using Cons.prems by (cases ms) auto
  next
    case (Suc k)
    then show ?thesis using Cons.prems Cons.IH [of "Suc (end_col m)" k] by auto
  qed
qed

lemma tiling_ends:
  "tiling a ms b \<Longrightarrow> ms \<noteq> [] \<Longrightarrow> start_col (hd ms) = a \<and> Suc (end_col (last ms)) = b"
  by (induction ms arbitrary: a) auto

lemma tiling_mono:
  "tiling a ms b \<Longrightarrow> i < k \<Longrightarrow> k < length ms \<Longrightarrow> end_col (ms ! i) < start_col (ms ! k)"
proof (induction k)
  case 0
  then show ?case by simp
next
  case (Suc k)
  have s: "start_col (ms ! Suc k) = Suc (end_col (ms ! k))"
    using tiling_succ [OF Suc.prems(1)] Suc.prems by simp
  show ?case
  proof (cases "i = k")
    case True
    then show ?thesis using s by simp
  next
    case False
    then have "end_col (ms ! i) < start_col (ms ! k)" using Suc by simp
    moreover have "start_col (ms ! k) \<le> end_col (ms ! k)"
      using tiling_nth [OF Suc.prems(1), of k] Suc.prems by simp
    ultimately show ?thesis using s by simp
  qed
qed

lemma tiling_cover_ex:
  "tiling a ms b \<Longrightarrow> a \<le> col \<Longrightarrow> col < b \<Longrightarrow> \<exists>i<length ms. covers (ms ! i) col"
proof (induction ms arbitrary: a)
  case Nil
  then show ?case by simp
next
  case (Cons m ms)
  show ?case
  proof (cases "col \<le> end_col m")
    case True
    then have "covers ((m # ms) ! 0) col" using Cons.prems by (simp add: covers_def)
    then show ?thesis by blast
  next
    case False
    then obtain i where "i < length ms" "covers (ms ! i) col"
      using Cons.IH [of "Suc (end_col m)"] Cons.prems by auto
    then have "Suc i < length (m # ms) \<and> covers ((m # ms) ! Suc i) col" by simp
    then show ?thesis by blast
  qed
qed

lemma tiling_cover_unique:
  assumes "tiling a ms b" "i < length ms" "k < length ms" "covers (ms ! i) col" "covers (ms ! k) col"
  shows "i = k"
proof (rule ccontr)
  assume "i \<noteq> k"
  then consider "i < k" | "k < i" by linarith
  then show False
  proof cases
    case 1
    then show ?thesis using tiling_mono [OF assms(1) 1 assms(3)] assms(4,5) by (simp add: covers_def)
  next
    case 2
    then show ?thesis using tiling_mono [OF assms(1) 2 assms(2)] assms(4,5) by (simp add: covers_def)
  qed
qed


text \<open>
  C5. The merges of row 1 partition the visit columns by runs of equal groups: every
  visit column lies in exactly one range; no range is empty; each range starts right
  after the one before; the first range starts at the first visit column and the last one
  ends at the last visit column; the value of a range is the group of each of its
  columns; and two adjacent columns share a range exactly when their groups are equal.
\<close>

theorem row1_merges_partition:
  "let ms = row1_merges cs groups; n = length groups
   in (\<forall>j<n. \<exists>!i. i < length ms \<and> covers (ms ! i) (cs + j))
    \<and> (\<forall>i<length ms. start_col (ms ! i) \<le> end_col (ms ! i))
    \<and> (\<forall>i. Suc i < length ms \<longrightarrow> start_col (ms ! Suc i) = Suc (end_col (ms ! i)))
    \<and> (groups = [] \<longrightarrow> ms = [])
    \<and> (groups \<noteq> [] \<longrightarrow> ms \<noteq> [] \<and> start_col (hd ms) = cs \<and> end_col (last ms) = cs + n - 1)
    \<and> (\<forall>i<length ms. \<forall>j<n. covers (ms ! i) (cs + j) \<longrightarrow> anchor (ms ! i) = groups ! j)
    \<and> (\<forall>j. Suc j < n \<longrightarrow>
          (groups ! j = groups ! Suc j) =
          (\<exists>i<length ms. covers (ms ! i) (cs + j) \<and> covers (ms ! i) (cs + Suc j)))"
proof (cases groups)
  case Nil
  then show ?thesis by (simp add: row1_merges_Nil)
next
  case (Cons g gs)
  define ms where "ms = row1_merges cs groups"
  define n where "n = length groups"
  have ms: "ms = spans (Suc cs) gs g cs" by (simp add: ms_def Cons row1_merges_Cons)
  have n: "n = Suc (length gs)" by (simp add: n_def Cons)
  have til: "tiling cs ms (cs + n)"
    using spans_tiling [of cs "Suc cs" gs g] by (simp add: ms n)
  have ne: "ms \<noteq> []" using spans_hd [of "Suc cs" gs g cs] by (simp add: ms)
  have val: "anchor (ms ! i) = groups ! j" if "i < length ms" "j < n" "covers (ms ! i) (cs + j)" for i j
  proof -
    have "ms ! i \<in> set (spans (Suc cs) gs g cs)" using that(1) by (simp add: ms)
    then have "anchor (ms ! i) = (if cs + j < Suc cs then g else gs ! (cs + j - Suc cs))"
      using spans_anchor [of "ms ! i" "Suc cs" gs g cs "cs + j"] that n by simp
    then show ?thesis by (cases j) (simp_all add: Cons)
  qed
  have adj: "anchor (ms ! i) \<noteq> anchor (ms ! Suc i)" if "Suc i < length ms" for i
    using distinct_adj_nth [OF spans_distinct_adj [of "Suc cs" gs g cs], of i] that
    by (simp add: ms)
  have p1: "\<exists>!i. i < length ms \<and> covers (ms ! i) (cs + j)" if jn: "j < n" for j
  proof -
    obtain i where "i < length ms" "covers (ms ! i) (cs + j)"
      using tiling_cover_ex [OF til, of "cs + j"] jn by auto
    then show ?thesis using tiling_cover_unique [OF til] by blast
  qed
  have p2: "start_col (ms ! i) \<le> end_col (ms ! i)" if "i < length ms" for i
    using tiling_nth [OF til that] by simp
  have p3: "start_col (ms ! Suc i) = Suc (end_col (ms ! i))" if "Suc i < length ms" for i
    using tiling_succ [OF til that] .
  have p5: "start_col (hd ms) = cs \<and> end_col (last ms) = cs + n - 1"
    using tiling_ends [OF til ne] by auto
  have p7: "(groups ! j = groups ! Suc j) =
      (\<exists>i<length ms. covers (ms ! i) (cs + j) \<and> covers (ms ! i) (cs + Suc j))"
    if j: "Suc j < n" for j
  proof
    assume eq: "groups ! j = groups ! Suc j"
    have jn: "cs + j < cs + n" using j by simp
    obtain i where i: "i < length ms" "covers (ms ! i) (cs + j)"
      using tiling_cover_ex [OF til _ jn] by auto
    show "\<exists>i<length ms. covers (ms ! i) (cs + j) \<and> covers (ms ! i) (cs + Suc j)"
    proof (cases "cs + Suc j \<le> end_col (ms ! i)")
      case True
      then have "covers (ms ! i) (cs + Suc j)" using i(2) by (simp add: covers_def)
      then show ?thesis using i by blast
    next
      case False
      then have e: "end_col (ms ! i) = cs + j" using i(2) by (simp add: covers_def)
      have "Suc i < length ms"
      proof (rule ccontr)
        assume "\<not> Suc i < length ms"
        then have "i = length ms - 1" using i(1) by simp
        then have "ms ! i = last ms" using ne by (simp add: last_conv_nth)
        then show False using p5 e j by simp
      qed
      then have s: "start_col (ms ! Suc i) = Suc (cs + j)" and l: "Suc i < length ms"
        using p3 e by simp_all
      have "covers (ms ! Suc i) (cs + Suc j)" using s p2 [OF l] by (simp add: covers_def)
      then have "anchor (ms ! Suc i) = groups ! Suc j" using val [OF l j] by simp
      moreover have "anchor (ms ! i) = groups ! j" using val [OF i(1) _ i(2)] j by simp
      ultimately show ?thesis using adj [OF l] eq by simp
    qed
  next
    assume "\<exists>i<length ms. covers (ms ! i) (cs + j) \<and> covers (ms ! i) (cs + Suc j)"
    then obtain i where i: "i < length ms" "covers (ms ! i) (cs + j)" "covers (ms ! i) (cs + Suc j)"
      by blast
    have "anchor (ms ! i) = groups ! j" using val [OF i(1) _ i(2)] j by simp
    moreover have "anchor (ms ! i) = groups ! Suc j" using val [OF i(1) j i(3)] .
    ultimately show "groups ! j = groups ! Suc j" by simp
  qed
  have "(\<forall>j<n. \<exists>!i. i < length ms \<and> covers (ms ! i) (cs + j))
    \<and> (\<forall>i<length ms. start_col (ms ! i) \<le> end_col (ms ! i))
    \<and> (\<forall>i. Suc i < length ms \<longrightarrow> start_col (ms ! Suc i) = Suc (end_col (ms ! i)))
    \<and> (groups = [] \<longrightarrow> ms = [])
    \<and> (groups \<noteq> [] \<longrightarrow> ms \<noteq> [] \<and> start_col (hd ms) = cs \<and> end_col (last ms) = cs + n - 1)
    \<and> (\<forall>i<length ms. \<forall>j<n. covers (ms ! i) (cs + j) \<longrightarrow> anchor (ms ! i) = groups ! j)
    \<and> (\<forall>j. Suc j < n \<longrightarrow>
          (groups ! j = groups ! Suc j) =
          (\<exists>i<length ms. covers (ms ! i) (cs + j) \<and> covers (ms ! i) (cs + Suc j)))"
    using p1 p2 p3 p5 p7 val ne Cons by blast
  then show ?thesis unfolding ms_def n_def Let_def .
qed

theorem row1_merges_partition_witness:
  "row1_merges 6 [''Screening'', ''Treatment'', ''Treatment''] =
     [\<lparr>start_col = 6, end_col = 6, anchor = ''Screening''\<rparr>,
      \<lparr>start_col = 7, end_col = 8, anchor = ''Treatment''\<rparr>] \<and>
   (\<exists>!i. i < length (row1_merges 6 [''Screening'', ''Treatment'', ''Treatment'']) \<and>
      covers (row1_merges 6 [''Screening'', ''Treatment'', ''Treatment''] ! i) (6 + 2)) \<and>
   (\<exists>i<length (row1_merges 6 [''Screening'', ''Treatment'', ''Treatment'']).
      covers (row1_merges 6 [''Screening'', ''Treatment'', ''Treatment''] ! i) (6 + 1) \<and>
      covers (row1_merges 6 [''Screening'', ''Treatment'', ''Treatment''] ! i) (6 + Suc 1))"
proof -
  let ?G = "[''Screening'', ''Treatment'', ''Treatment'']"
  have e: "row1_merges 6 ?G =
     [\<lparr>start_col = 6, end_col = 6, anchor = ''Screening''\<rparr>,
      \<lparr>start_col = 7, end_col = 8, anchor = ''Treatment''\<rparr>]"
    by (simp add: row1_merges_def)
  note t = row1_merges_partition [of 6 ?G, unfolded Let_def]
  have j2: "2 < length ?G" by simp
  have j1: "Suc 1 < length ?G" by simp
  have g: "?G ! 1 = ?G ! Suc 1" by simp
  have a: "\<exists>!i. i < length (row1_merges 6 ?G) \<and> covers (row1_merges 6 ?G ! i) (6 + 2)"
    using t [THEN conjunct1, rule_format, OF j2] .
  have b: "\<exists>i<length (row1_merges 6 ?G).
      covers (row1_merges 6 ?G ! i) (6 + 1) \<and> covers (row1_merges 6 ?G ! i) (6 + Suc 1)"
    using t [THEN conjunct2, THEN conjunct2, THEN conjunct2, THEN conjunct2, THEN conjunct2,
        THEN conjunct2, rule_format, OF j1] g by simp
  show ?thesis using e a b by blast
qed

section \<open>The values written to the visit columns\<close>

lemma coerce_integral:
  "q = of_int (trunc q) \<Longrightarrow> coerce_value within_tol (VFloat (Finite q)) = Inr (VInt (trunc q))"
  by (simp add: coerce_value_def isna_def py_int_def isclose_def)

lemma coerce_isna: "isna v \<Longrightarrow> coerce_value within_tol v = Inr (VStr [])"
  by (simp add: coerce_value_def)

lemma coerce_result:
  "coerce_value within_tol v = Inr w \<Longrightarrow>
     \<not> isna w \<and> (\<forall>q. w = VFloat (Finite q) \<longrightarrow> q \<noteq> of_int (trunc q))"
  by (auto simp: coerce_value_def isna_def py_int_def isclose_def Let_def
      split: if_splits pyval.splits pyfloat.splits sum.splits)

lemma attr_cells_nth:
  "attr_cells within_tol ctx attr js = Inr ws \<Longrightarrow> k < length ws \<Longrightarrow>
     k < length js \<and>
     (\<exists>v. mapped_value ctx attr (js ! k) = Write v \<and> coerce_value within_tol v = Inr (ws ! k))"
proof (induction js arbitrary: ws k)
  case Nil
  then show ?case by simp
next
  case (Cons j js)
  then show ?case
    by (cases k) (auto split: step.splits sum.splits)
qed

lemma form_visit_cells_nth:
  "form_visit_cells within_tol cols r ls = Inr ws \<Longrightarrow> k < length ws \<Longrightarrow>
     k < length ls \<and>
     coerce_value within_tol (form_lookup cols r (fst (ls ! k)) (snd (ls ! k))) = Inr (ws ! k)"
proof (induction ls arbitrary: ws k)
  case Nil
  then show ?case by simp
next
  case (Cons l ls)
  obtain a b where l: "l = (a, b)" by (cases l)
  from Cons show ?case unfolding l
    by (cases k) (auto split: sum.splits)
qed

section \<open>Claims about the schedule grid\<close>

text \<open>
  C3. The claim: in the row "Triggering: Form" every visit column after the
  randomisation visit whose label has a "V" holds RANDOMISATION. In the code the
  assignment of RANDOMISATION is followed by a \<^verbatim>\<open>break\<close> that leaves the loop over the
  columns before the cell is written. For the visits Screening, Randomisation and
  Treatment with the labels V1, V2 and V3 two cells are written, the empty string and
  ELIGIBILITY_CRITERIA; the cell of the third column is not written.
\<close>

theorem triggering_form_stops_at_break:
  "attr_cells within_tol
     \<lparr>visit_groups = [''Screening'', ''Randomisation'', ''Treatment''],
      visit_labels = [''V1'', ''V2'', ''V3''],
      event_names = [''SCRN'', ''RAND'', ''V3''],
      rand_idx = rand_idx_of [''Screening'', ''Randomisation'', ''Treatment''],
      df_columns = [''Event Group'', ''Visit Name''],
      df_rows = [[VStr ''Screening'', VStr ''V1''], [VStr ''Randomisation'', VStr ''V2''],
                 [VStr ''Treatment'', VStr ''V3'']]\<rparr>
     ''Triggering: Form'' [0..<3]
   = Inr [VStr [], VStr ''ELIGIBILITY_CRITERIA'']"
  by code_simp

text \<open>
  C4. The claim: an event name that is not SCRN or RAND and has no V or P leaves the
  cell of row 2 unset. The code has no branch for such a name and writes the variable
  \<^verbatim>\<open>event_label\<close> all the same: with the default configuration the groups "Screening"
  and "RTSM" have the event names SCRN and RTSM, and row 2 gets "Screening" in both
  columns; when the first visit has such a name the variable is unbound and the
  function raises.
\<close>

theorem row2_label_without_branch:
  "event_names_from str_format \<lparr>event_name_mapping = None\<rparr> 0
      [\<lparr>event_group = ''Screening'', visit_name = ''Visit 1'', visit_cells = []\<rparr>,
       \<lparr>event_group = ''RTSM'', visit_name = ''Dispensing'', visit_cells = []\<rparr>]
     = Inr [''SCRN'', ''RTSM''] \<and>
   row2_labels [''SCRN'', ''RTSM''] = Inr [''Screening'', ''Screening''] \<and>
   row2_labels [''RTSM''] = Inl (UnboundLocalError ''event_label'')"
  by code_simp

text \<open>
  C8. The claim is about every cell written to the body. The cells of the visit columns
  are coerced before they are written (see \<open>coerce_integral\<close>, \<open>coerce_isna\<close>,
  \<open>attr_cells_nth\<close> and \<open>form_visit_cells_nth\<close>); the identity cells and the cells under
  the extra headers of a form row are written as the table has them. For a form with
  an empty "Source" and an empty "Is Form Dynamic?" cell (NaN in the table) the third
  identity cell and the third extra cell are NaN, while the visit cell is the empty
  string.
\<close>

theorem form_row_writes_nan:
  "form_identity_cells [''Form Label'', ''Form Name'', ''Source'', ''V1'', ''Is Form Dynamic?'']
        [VStr ''Demographics'', VStr ''DM'', VFloat NaN, VFloat NaN, VFloat NaN]
     = [VStr ''Demographics'', VStr ''DM'', VFloat NaN] \<and>
   form_extra_cells [''Form Label'', ''Form Name'', ''Source'', ''V1'', ''Is Form Dynamic?'']
        [VStr ''Demographics'', VStr ''DM'', VFloat NaN, VFloat NaN, VFloat NaN]
        default_extra_headers
     = [VStr [], VStr [], VFloat NaN, VStr [], VStr []] \<and>
   form_visit_cells within_tol
        [''Form Label'', ''Form Name'', ''Source'', ''V1'', ''Is Form Dynamic?'']
        [VStr ''Demographics'', VStr ''DM'', VFloat NaN, VFloat NaN, VFloat NaN]
        [(''V1'', ''SCRN'')]
     = Inr [VStr []]"
  by code_simp

text \<open>
  C9. When the read of the visit schedule fails, or it succeeds and the read of the
  forms table fails, \<open>build_schedule_layout\<close> raises the exception of the failed read
  and the files are as before: no workbook is written.
\<close>

theorem read_failure_propagates:
  assumes "read_excel visit_schedule_xlsx = Inl e \<or>
           (\<exists>df_visits. read_excel visit_schedule_xlsx = Inr df_visits \<and> read_csv forms_csv = Inl e)"
  shows "build_schedule_layout str_format within_tol read_excel read_csv files
           visit_schedule_xlsx forms_csv output_xlsx cfg = (Inl e, files)"
  using assms by (auto simp: build_schedule_layout_def)

theorem read_failure_propagates_witness:
  "build_schedule_layout (\<lambda>t n. Inr t) (\<lambda>a b. False)
       (\<lambda>p. Inr \<lparr>v_columns = [''Event Group'', ''Visit Name''], visits = []\<rparr>)
       (\<lambda>p. Inl (ReadError ''forms.csv'')) Map.empty
       ''visits.xlsx'' ''forms.csv'' ''out.xlsx''
       \<lparr>event_config = \<lparr>event_name_mapping = None\<rparr>, left_columns = None, extra_headers = None\<rparr>
     = (Inl (ReadError ''forms.csv''), Map.empty) \<and>
   build_schedule_layout (\<lambda>t n. Inr t) (\<lambda>a b. False)
       (\<lambda>p. Inl (ReadError ''visits.xlsx''))
       (\<lambda>p. Inr \<lparr>f_columns = [], f_rows = []\<rparr>) Map.empty
       ''visits.xlsx'' ''forms.csv'' ''out.xlsx''
       \<lparr>event_config = \<lparr>event_name_mapping = None\<rparr>, left_columns = None, extra_headers = None\<rparr>
     = (Inl (ReadError ''visits.xlsx''), Map.empty)"
proof -
  let ?rx = "\<lambda>p::string. (Inr \<lparr>v_columns = [''Event Group'', ''Visit Name''], visits = []\<rparr>
                :: py_error + visits_df)"
  let ?rc = "\<lambda>p::string. (Inl (ReadError ''forms.csv'') :: py_error + forms_df)"
  let ?rx' = "\<lambda>p::string. (Inl (ReadError ''visits.xlsx'') :: py_error + visits_df)"
  let ?rc' = "\<lambda>p::string. (Inr \<lparr>f_columns = [], f_rows = []\<rparr> :: py_error + forms_df)"
  have a: "?rx ''visits.xlsx'' = Inl (ReadError ''forms.csv'') \<or>
           (\<exists>df_visits. ?rx ''visits.xlsx'' = Inr df_visits \<and>
              ?rc ''forms.csv'' = Inl (ReadError ''forms.csv''))"
    by simp
  have b: "?rx' ''visits.xlsx'' = Inl (ReadError ''visits.xlsx'') \<or>
           (\<exists>df_visits. ?rx' ''visits.xlsx'' = Inr df_visits \<and>
              ?rc' ''forms.csv'' = Inl (ReadError ''visits.xlsx''))"
    by simp
  show ?thesis
    using read_failure_propagates [of ?rx "''visits.xlsx''" _ ?rc "''forms.csv''", OF a]
      read_failure_propagates [of ?rx' "''visits.xlsx''" _ ?rc' "''forms.csv''", OF b]
    by simp
qed

section \<open>Facts about worksheets\<close>

lemma cell_at_store [simp]:
  "cell_at (store rc c ws) rc' = (if rc' = rc then Some c else cell_at ws rc')"
  by (simp add: cell_at_def store_def)

lemma cell_at_add_cell [simp]:
  "cell_at (add_cell rc c ws) rc' = (if rc' = rc then Some c else cell_at ws rc')"
  by (simp add: cell_at_def add_cell_def)

lemma cell_at_merged_ranges_update [simp]: "cell_at (ws\<lparr>merged_ranges := m\<rparr>) rc = cell_at ws rc"
  by (simp add: cell_at_def)

lemma cell_at_current_row_update [simp]: "cell_at (ws\<lparr>current_row := n\<rparr>) rc = cell_at ws rc"
  by (simp add: cell_at_def)

lemma style_at_set_style:
  "style_at (set_style f rc ws) rc' = (if rc' = rc then f (style_at ws rc) else style_at ws rc')"
  by (simp add: set_style_def style_at_def style_of_def split: option.splits cell.splits)

lemma value_at_set_style [simp]: "value_at (set_style f rc ws) rc' = value_at ws rc'"
  by (simp add: set_style_def value_at_def value_of_def split: option.splits cell.splits)

lemma merged_at_set_style [simp]: "merged_at (set_style f rc ws) rc' = merged_at ws rc'"
  by (simp add: set_style_def merged_at_def split: option.splits cell.splits)
section \<open>The sheet order after the replacement\<close>

text \<open>
  C2. The claim: a target sheet that exists is replaced at its index, and the other
  sheets keep their index. The code records the index of the forms sheet after the
  schedule sheet has been removed, and inserts the schedule sheet first. With both
  target sheets in the template the result differs: the template with the two target
  sheets only comes out in the opposite order, and in a template of five sheets the
  new forms sheet lands at index 2 instead of 3 while the sheet "Notes" moves from
  index 2 to 3.
\<close>

theorem place_sheets_moves_sheets:
  "place_sheets [(''Schedule Grid'', a), (''Study Specific Forms'', b)]
       ''Schedule Grid'' ''Study Specific Forms'' s f
     = [(''Study Specific Forms'', f), (''Schedule Grid'', s)] \<and>
   place_sheets [(''Cover'', a), (''Schedule Grid'', b), (''Notes'', c),
                 (''Study Specific Forms'', d), (''Log'', e)]
       ''Schedule Grid'' ''Study Specific Forms'' s f
     = [(''Cover'', a), (''Schedule Grid'', s), (''Study Specific Forms'', f),
        (''Notes'', c), (''Log'', e)]"
  by (simp add: place_sheets_def create_sheet_def)
section \<open>The fills that \<open>auto_format_sheet\<close> keeps\<close>

lemma fill_at_header_step:
  assumes "truthy_str (fill_type (fill_at ws rc0)) \<or> (fst rc0 = 1 \<and> 4 < snd rc0)"
  shows "fill_at (set_style (header_style skip rc) rc ws) rc0 = fill_at ws rc0"
  using assms
  by (cases rc) (auto simp: fill_at_def style_at_set_style header_style_def Let_def)

lemma fill_at_header_cols:
  assumes "truthy_str (fill_type (fill_at ws rc0)) \<or> (fst rc0 = 1 \<and> 4 < snd rc0)"
  shows "fill_at (fold (\<lambda>c. set_style (header_style skip (r, c)) (r, c)) cs ws) rc0 = fill_at ws rc0"
  using assms
proof (induction cs arbitrary: ws)
  case Nil
  then show ?case by simp
next
  case (Cons c cs)
  have step: "fill_at (set_style (header_style skip (r, c)) (r, c) ws) rc0 = fill_at ws rc0"
    using fill_at_header_step [OF Cons.prems] .
  have keep: "truthy_str (fill_type (fill_at (set_style (header_style skip (r, c)) (r, c) ws) rc0))
      \<or> (fst rc0 = 1 \<and> 4 < snd rc0)"
    using Cons.prems unfolding step .
  have "fill_at (fold (\<lambda>c. set_style (header_style skip (r, c)) (r, c)) cs
           (set_style (header_style skip (r, c)) (r, c) ws)) rc0
        = fill_at (set_style (header_style skip (r, c)) (r, c) ws) rc0"
    using Cons.IH [OF keep] .
  then show ?case by (simp only: fold_simps step)
qed

lemma fill_at_header_rows:
  assumes "truthy_str (fill_type (fill_at ws rc0)) \<or> (fst rc0 = 1 \<and> 4 < snd rc0)"
  shows "fill_at (fold (style_header_row skip) rs ws) rc0 = fill_at ws rc0"
  using assms
proof (induction rs arbitrary: ws)
  case Nil
  then show ?case by simp
next
  case (Cons r rs)
  have step: "fill_at (style_header_row skip r ws) rc0 = fill_at ws rc0"
    unfolding style_header_row_def using fill_at_header_cols [OF Cons.prems] .
  have keep: "truthy_str (fill_type (fill_at (style_header_row skip r ws) rc0))
      \<or> (fst rc0 = 1 \<and> 4 < snd rc0)"
    using Cons.prems unfolding step .
  have "fill_at (fold (style_header_row skip) rs (style_header_row skip r ws)) rc0
        = fill_at (style_header_row skip r ws) rc0"
    using Cons.IH [OF keep] .
  then show ?case by (simp only: fold_simps step)
qed

lemma fill_at_data_rows: "fill_at (fold (set_style data_style) ps ws) rc0 = fill_at ws rc0"
proof (induction ps arbitrary: ws)
  case Nil
  then show ?case by simp
next
  case (Cons p ps)
  have "fill_at (set_style data_style p ws) rc0 = fill_at ws rc0"
    by (simp add: fill_at_def style_at_set_style data_style_def)
  then show ?case using Cons.IH [of "set_style data_style p ws"] by simp
qed

text \<open>
  C7. A cell whose fill has a fill type (a fill other than the default one, which has
  none), and a cell of row 1 in a column after the fourth, has the same fill after
  \<open>auto_format_sheet\<close> as before, whatever the number of header rows and the rows to
  skip.
\<close>

theorem auto_format_keeps_fill:
  assumes "truthy_str (fill_type (fill_at sheet (r, c))) \<or> (r = 1 \<and> 4 < c)"
  shows "fill_at (auto_format_sheet sheet header_rows skip_fill_rows) (r, c) = fill_at sheet (r, c)"
proof -
  have a: "truthy_str (fill_type (fill_at sheet (r, c))) \<or> (fst (r, c) = 1 \<and> 4 < snd (r, c))"
    using assms by simp
  show ?thesis
    unfolding auto_format_sheet_def Let_def
    by (simp only: fill_at_data_rows fill_at_header_rows [OF a])
qed

theorem auto_format_keeps_fill_witness:
  "fill_at (auto_format_sheet
       \<lparr>cells = [((1, 1), Cell (VStr ''CTDM'')
                     (default_style\<lparr>fill := \<lparr>fill_type = Some ''solid'', start_color = ''FFC000'',
                                             end_color = ''FFC000''\<rparr>\<rparr>)),
                 ((1, 2), Cell (VStr ''Form'') default_style),
                 ((1, 5), Cell (VStr ''Group'') default_style)],
        merged_ranges = [], current_row = 1\<rparr> 3 []) (1, 1)
     = \<lparr>fill_type = Some ''solid'', start_color = ''FFC000'', end_color = ''FFC000''\<rparr> \<and>
   fill_at (auto_format_sheet
       \<lparr>cells = [((1, 1), Cell (VStr ''CTDM'')
                     (default_style\<lparr>fill := \<lparr>fill_type = Some ''solid'', start_color = ''FFC000'',
                                             end_color = ''FFC000''\<rparr>\<rparr>)),
                 ((1, 2), Cell (VStr ''Form'') default_style),
                 ((1, 5), Cell (VStr ''Group'') default_style)],
        merged_ranges = [], current_row = 1\<rparr> 3 []) (1, 5)
     = default_fill"
proof -
  let ?sheet = "\<lparr>cells = [((1, 1), Cell (VStr ''CTDM'')
                     (default_style\<lparr>fill := \<lparr>fill_type = Some ''solid'', start_color = ''FFC000'',
                                             end_color = ''FFC000''\<rparr>\<rparr>)),
                 ((1, 2), Cell (VStr ''Form'') default_style),
                 ((1, 5), Cell (VStr ''Group'') default_style)],
        merged_ranges = [], current_row = 1\<rparr>"
  have f1: "fill_at ?sheet (1, 1)
      = \<lparr>fill_type = Some ''solid'', start_color = ''FFC000'', end_color = ''FFC000''\<rparr>"
    by (simp add: fill_at_def style_at_def cell_at_def style_of_def)
  have f5: "fill_at ?sheet (1, 5) = default_fill"
    by (simp add: fill_at_def style_at_def cell_at_def style_of_def default_style_def)
  have h1: "truthy_str (fill_type (fill_at ?sheet (1, 1))) \<or> ((1::nat) = 1 \<and> (4::nat) < 1)"
    unfolding f1 by (simp add: truthy_str_def)
  have h5: "truthy_str (fill_type (fill_at ?sheet (1, 5))) \<or> ((1::nat) = 1 \<and> (4::nat) < 5)"
    by simp
  show ?thesis
    using auto_format_keeps_fill [OF h1, of 3 "[]"] auto_format_keeps_fill [OF h5, of 3 "[]"]
    by (simp only: f1 f5)
qed

section \<open>The two copies of a worksheet\<close>

lemma value_at_store:
  "value_at (store rc c ws) rc' = (if rc' = rc then value_of c else value_at ws rc')"
  by (simp add: value_at_def)

lemma merged_at_store:
  "merged_at (store rc c ws) rc' =
     (if rc' = rc then (case c of MergedCell st \<Rightarrow> True | Cell v st \<Rightarrow> False) else merged_at ws rc')"
  by (simp add: merged_at_def split: cell.splits)

lemma cell_at_fold_merged:
  "cell_at (fold (\<lambda>rc. store rc (MergedCell st)) ps ws) rc' =
     (if rc' \<in> set ps then Some (MergedCell st) else cell_at ws rc')"
  by (induction ps arbitrary: ws) auto

lemma cell_at_merge:
  "cell_at (sheet_merge_cells rng ws) rc =
     (if rc \<in> set (inner_positions rng) then Some (MergedCell default_style)
      else if cell_at ws rc = None \<and> rc = (fst rng, fst (snd rng)) then Some (Cell VNone default_style)
      else cell_at ws rc)"
  by (cases rng)
     (auto simp: sheet_merge_cells_def inner_positions_def Let_def cell_at_fold_merged
       split: option.splits)

lemma value_at_merge:
  "value_at (sheet_merge_cells rng ws) rc =
     (if rc \<in> set (inner_positions rng) then VNone else value_at ws rc)"
  by (auto simp: value_at_def cell_at_merge value_of_def)

lemma merged_at_merge:
  "merged_at (sheet_merge_cells rng ws) rc = (rc \<in> set (inner_positions rng) \<or> merged_at ws rc)"
  by (auto simp: merged_at_def cell_at_merge)

lemma value_at_fold_merge:
  "value_at (fold sheet_merge_cells rngs ws) rc =
     (if rc \<in> set (concat (map inner_positions rngs)) then VNone else value_at ws rc)"
  by (induction rngs arbitrary: ws) (auto simp: value_at_merge)

lemma merged_at_fold_merge:
  "merged_at (fold sheet_merge_cells rngs ws) rc =
     (rc \<in> set (concat (map inner_positions rngs)) \<or> merged_at ws rc)"
  by (induction rngs arbitrary: ws) (auto simp: merged_at_merge)

text \<open>The values after one append and after the appends of the rows 1 to \<open>n\<close>.\<close>

lemma value_at_fold_append:
  "value_at (fold (\<lambda>(col_idx, content). store (row, col_idx) (Cell content st))
               (enumerate i vals) ws) (r, c) =
     (if r = row \<and> i \<le> c \<and> c < i + length vals then vals ! (c - i) else value_at ws (r, c))"
proof (induction vals arbitrary: i ws)
  case Nil
  then show ?case by auto
next
  case (Cons v vs)
  have ih: "value_at (fold (\<lambda>(col_idx, content). store (row, col_idx) (Cell content st))
               (enumerate (Suc i) vs) (store (row, i) (Cell v st) ws)) (r, c) =
     (if r = row \<and> Suc i \<le> c \<and> c < Suc i + length vs then vs ! (c - Suc i)
      else value_at (store (row, i) (Cell v st) ws) (r, c))"
    by (rule Cons.IH)
  have unf: "fold (\<lambda>(col_idx, content). store (row, col_idx) (Cell content st))
               (enumerate i (v # vs)) ws
      = fold (\<lambda>(col_idx, content). store (row, col_idx) (Cell content st))
               (enumerate (Suc i) vs) (store (row, i) (Cell v st) ws)"
    by simp
  show ?case unfolding unf ih
    by (auto simp: value_at_store value_of_def nth_Cons')
qed

lemma value_at_append:
  "value_at (sheet_append vals ws) (r, c) =
     (if r = Suc (current_row ws) \<and> 1 \<le> c \<and> c \<le> length vals then vals ! (c - 1)
      else value_at ws (r, c))"
proof -
  have "value_at (sheet_append vals ws) (r, c) =
      value_at (fold (\<lambda>(col_idx, content). store (Suc (current_row ws), col_idx)
                        (Cell content default_style)) (enumerate 1 vals) ws) (r, c)"
    by (simp add: sheet_append_def Let_def value_at_def)
  also have "\<dots> = (if r = Suc (current_row ws) \<and> 1 \<le> c \<and> c < 1 + length vals
                    then vals ! (c - 1) else value_at ws (r, c))"
    by (rule value_at_fold_append)
  finally show ?thesis by (simp add: less_Suc_eq_le)
qed

lemma current_row_append: "current_row (sheet_append vals ws) = Suc (current_row ws)"
  by (simp add: sheet_append_def Let_def)

lemma append_rows:
  assumes "current_row ws = 0" and "\<forall>rc. value_at ws rc = VNone"
  shows "current_row (fold (\<lambda>r. sheet_append (g r)) [1..<Suc n] ws) = n \<and>
         (\<forall>r c. value_at (fold (\<lambda>r. sheet_append (g r)) [1..<Suc n] ws) (r, c) =
            (if 1 \<le> r \<and> r \<le> n \<and> 1 \<le> c \<and> c \<le> length (g r) then g r ! (c - 1) else VNone))"
proof (induction n)
  case 0
  then show ?case using assms by simp
next
  case (Suc n)
  define d where "d = fold (\<lambda>r. sheet_append (g r)) [1..<Suc n] ws"
  have e: "fold (\<lambda>r. sheet_append (g r)) [1..<Suc (Suc n)] ws = sheet_append (g (Suc n)) d"
    by (simp add: d_def)
  have cr: "current_row d = n" using Suc.IH unfolding d_def by blast
  have v: "value_at d (r, c) =
      (if 1 \<le> r \<and> r \<le> n \<and> 1 \<le> c \<and> c \<le> length (g r) then g r ! (c - 1) else VNone)" for r c
    using Suc.IH unfolding d_def by blast
  have c1: "current_row (sheet_append (g (Suc n)) d) = Suc n"
    by (simp add: current_row_append cr)
  have v1: "value_at (sheet_append (g (Suc n)) d) (r, c) =
      (if 1 \<le> r \<and> r \<le> Suc n \<and> 1 \<le> c \<and> c \<le> length (g r) then g r ! (c - 1) else VNone)" for r c
  proof (cases "r = Suc n")
    case True
    then show ?thesis by (simp add: value_at_append cr v)
  next
    case False
    then have "(1 \<le> r \<and> r \<le> Suc n) = (1 \<le> r \<and> r \<le> n)" by auto
    then show ?thesis using False by (simp add: value_at_append cr v)
  qed
  show ?case unfolding e using c1 v1 by blast
qed

text \<open>The values of the fast copy into the empty sheet.\<close>

lemma values_only_value_at:
  "value_at (copy_worksheet_values_only src_ws empty_sheet) (r, c) =
     (if (r, c) \<in> set (merged_positions src_ws) then VNone
      else if r \<in> set (row_indices src_ws) \<and> c \<in> set (col_indices src_ws)
        then value_of (src_cell src_ws (r, c))
      else VNone)"
proof -
  define g where "g = (\<lambda>r. map (\<lambda>c. value_of (src_cell src_ws (r, c))) (col_indices src_ws))"
  have e0: "current_row empty_sheet = 0" "\<forall>rc. value_at empty_sheet rc = VNone"
    by (simp_all add: empty_sheet_def value_at_def cell_at_def)
  have rows: "value_at (fold (\<lambda>r. sheet_append (g r)) (row_indices src_ws) empty_sheet) (r, c) =
      (if r \<in> set (row_indices src_ws) \<and> c \<in> set (col_indices src_ws)
       then value_of (src_cell src_ws (r, c)) else VNone)"
  proof (cases "current_row src_ws = 0")
    case True
    then show ?thesis using e0 by (simp add: row_indices_def)
  next
    case False
    have len: "length (g r) = max_column src_ws" for r
      by (simp add: g_def col_indices_def)
    have nth: "g r ! (c - Suc 0) = value_of (src_cell src_ws (r, c))"
      if "Suc 0 \<le> c" "c \<le> max_column src_ws" for r c
    proof -
      have "[1..<Suc (max_column src_ws)] ! (c - Suc 0) = c"
        using that by (simp del: upt_Suc)
      then show ?thesis using that by (simp add: g_def col_indices_def del: upt_Suc)
    qed
    show ?thesis
      using append_rows [OF e0, of g "max_row src_ws"] False
      by (auto simp: row_indices_def col_indices_def len nth)
  qed
  show ?thesis
    unfolding copy_worksheet_values_only_def merged_positions_def
    using rows by (simp add: value_at_fold_merge g_def)
qed

text \<open>The loop of the full copy keeps the merged cells and stores the values.\<close>

lemma copy_cell_done:
  assumes "copy_cell src_ws p d = Inr (set_style f p d0)"
    and "\<And>rc. merged_at d0 rc = (rc \<in> M)"
    and "\<And>rc. value_at d0 rc = (if rc = p \<and> rc \<notin> M \<and> v \<noteq> VNone then v else value_at d rc)"
  shows "\<exists>d'. copy_cell src_ws p d = Inr d' \<and> (\<forall>rc. merged_at d' rc = (rc \<in> M)) \<and>
           (\<forall>rc. value_at d' rc = (if rc = p \<and> rc \<notin> M \<and> v \<noteq> VNone then v else value_at d rc))"
proof (intro exI conjI allI)
  show "copy_cell src_ws p d = Inr (set_style f p d0)" by (rule assms(1))
  show "merged_at (set_style f p d0) rc = (rc \<in> M)" for rc
    by (simp only: merged_at_set_style assms(2))
  show "value_at (set_style f p d0) rc
      = (if rc = p \<and> rc \<notin> M \<and> v \<noteq> VNone then v else value_at d rc)" for rc
    by (simp only: value_at_set_style assms(3))
qed

lemma copy_cell_step:
  assumes inv: "\<forall>rc. merged_at d rc = (rc \<in> M)"
    and wf: "\<forall>rc\<in>M. value_of (src_cell src_ws rc) = VNone"
  shows "\<exists>d'. copy_cell src_ws p d = Inr d' \<and> (\<forall>rc. merged_at d' rc = (rc \<in> M)) \<and>
           (\<forall>rc. value_at d' rc =
              (if rc = p \<and> rc \<notin> M \<and> value_of (src_cell src_ws p) \<noteq> VNone
               then value_of (src_cell src_ws p) else value_at d rc))"
proof (cases "src_cell src_ws p")
  case (MergedCell st)
  then have "copy_cell src_ws p d = Inr d" "value_of (src_cell src_ws p) = VNone"
    by (simp_all add: copy_cell_def value_of_def)
  then show ?thesis using inv by simp
next
  case (Cell v st)
  then have sv: "value_of (src_cell src_ws p) = v" by (simp add: value_of_def)
  have m: "merged_at d rc = (rc \<in> M)" for rc using inv by blast
  show ?thesis unfolding sv
  proof (cases "cell_at d p")
    case None
    then have nm: "p \<notin> M" using m [of p] by (simp add: merged_at_def)
    show "\<exists>d'. copy_cell src_ws p d = Inr d' \<and> (\<forall>rc. merged_at d' rc = (rc \<in> M)) \<and>
           (\<forall>rc. value_at d' rc = (if rc = p \<and> rc \<notin> M \<and> v \<noteq> VNone then v else value_at d rc))"
    proof (rule copy_cell_done)
      show "copy_cell src_ws p d
          = Inr (set_style (copy_cell_style st) p (add_cell p (Cell v default_style) d))"
        using Cell None by (simp add: copy_cell_def sheet_cell_def)
      show "merged_at (add_cell p (Cell v default_style) d) rc = (rc \<in> M)" for rc
        using m [of rc] nm by (auto simp: merged_at_def)
      show "value_at (add_cell p (Cell v default_style) d) rc =
          (if rc = p \<and> rc \<notin> M \<and> v \<noteq> VNone then v else value_at d rc)" for rc
        using None nm by (auto simp: value_at_def value_of_def)
    qed
  next
    case (Some dc)
    show "\<exists>d'. copy_cell src_ws p d = Inr d' \<and> (\<forall>rc. merged_at d' rc = (rc \<in> M)) \<and>
           (\<forall>rc. value_at d' rc = (if rc = p \<and> rc \<notin> M \<and> v \<noteq> VNone then v else value_at d rc))"
    proof (cases dc)
      case (MergedCell st')
      then have pm: "p \<in> M" using m [of p] Some by (simp add: merged_at_def)
      then have vn: "v = VNone" using wf sv by auto
      show ?thesis
      proof (rule copy_cell_done)
        show "copy_cell src_ws p d = Inr (set_style (copy_cell_style st) p d)"
          using Cell Some MergedCell vn by (simp add: copy_cell_def sheet_cell_def)
        show "merged_at d rc = (rc \<in> M)" for rc by (rule m)
        show "value_at d rc = (if rc = p \<and> rc \<notin> M \<and> v \<noteq> VNone then v else value_at d rc)" for rc
          using vn by simp
      qed
    next
      case c: (Cell old st')
      then have nm: "p \<notin> M" using m [of p] Some by (simp add: merged_at_def)
      show ?thesis
      proof (cases "v = VNone")
        case True
        show ?thesis
        proof (rule copy_cell_done)
          show "copy_cell src_ws p d = Inr (set_style (copy_cell_style st) p d)"
            using Cell Some c True by (simp add: copy_cell_def sheet_cell_def)
          show "merged_at d rc = (rc \<in> M)" for rc by (rule m)
          show "value_at d rc = (if rc = p \<and> rc \<notin> M \<and> v \<noteq> VNone then v else value_at d rc)" for rc
            using True by simp
        qed
      next
        case False
        show ?thesis
        proof (rule copy_cell_done)
          show "copy_cell src_ws p d
              = Inr (set_style (copy_cell_style st) p (store p (Cell v st') d))"
            using Cell Some c False by (simp add: copy_cell_def sheet_cell_def)
          show "merged_at (store p (Cell v st') d) rc = (rc \<in> M)" for rc
            using m [of rc] nm by (auto simp: merged_at_store)
          show "value_at (store p (Cell v st') d) rc =
              (if rc = p \<and> rc \<notin> M \<and> v \<noteq> VNone then v else value_at d rc)" for rc
            using nm False by (auto simp: value_at_store value_of_def)
        qed
      qed
    qed
  qed
qed

lemma copy_loop:
  assumes inv: "\<forall>rc. merged_at d rc = (rc \<in> M)"
    and wf: "\<forall>rc\<in>M. value_of (src_cell src_ws rc) = VNone"
  shows "\<exists>d'. fold_err (copy_cell src_ws) ps d = Inr d' \<and> (\<forall>rc. merged_at d' rc = (rc \<in> M)) \<and>
           (\<forall>rc. value_at d' rc =
              (if rc \<in> set ps \<and> rc \<notin> M \<and> value_of (src_cell src_ws rc) \<noteq> VNone
               then value_of (src_cell src_ws rc) else value_at d rc))"
  using inv
proof (induction ps arbitrary: d)
  case Nil
  then show ?case by simp
next
  case (Cons p ps)
  obtain d1 where d1: "copy_cell src_ws p d = Inr d1"
    and m1: "\<forall>rc. merged_at d1 rc = (rc \<in> M)"
    and v1: "\<forall>rc. value_at d1 rc =
              (if rc = p \<and> rc \<notin> M \<and> value_of (src_cell src_ws p) \<noteq> VNone
               then value_of (src_cell src_ws p) else value_at d rc)"
    using copy_cell_step [OF Cons.prems wf, of p] by blast
  obtain d2 where d2: "fold_err (copy_cell src_ws) ps d1 = Inr d2"
    and m2: "\<forall>rc. merged_at d2 rc = (rc \<in> M)"
    and v2: "\<forall>rc. value_at d2 rc =
              (if rc \<in> set ps \<and> rc \<notin> M \<and> value_of (src_cell src_ws rc) \<noteq> VNone
               then value_of (src_cell src_ws rc) else value_at d1 rc)"
    using Cons.IH [OF m1] by blast
  have "fold_err (copy_cell src_ws) (p # ps) d = Inr d2" using d1 d2 by simp
  moreover have "value_at d2 rc =
      (if rc \<in> set (p # ps) \<and> rc \<notin> M \<and> value_of (src_cell src_ws rc) \<noteq> VNone
       then value_of (src_cell src_ws rc) else value_at d rc)" for rc
    using v1 [rule_format, of rc] v2 [rule_format, of rc] by auto
  ultimately show ?case using m2 by blast
qed

lemma set_iter_positions:
  "(r, c) \<in> set (iter_positions ws) = (r \<in> set (row_indices ws) \<and> c \<in> set (col_indices ws))"
  by (auto simp: iter_positions_def)

text \<open>
  C6. For every source sheet whose positions inside merged ranges hold no value, the
  full copy into an empty sheet succeeds, and at every position its value is the value
  of the fast copy into an empty sheet.
\<close>

theorem copies_agree_on_values:
  assumes "merged_ok src_ws"
  shows "\<exists>dest. copy_worksheet_contents src_ws empty_sheet = Inr dest \<and>
           (\<forall>r c. value_at dest (r, c)
                    = value_at (copy_worksheet_values_only src_ws empty_sheet) (r, c))"
proof -
  define M where "M = set (merged_positions src_ws)"
  define d where "d = fold sheet_merge_cells (merged_ranges src_ws) empty_sheet"
  have wf: "\<forall>rc\<in>M. value_of (src_cell src_ws rc) = VNone"
    using assms by (simp add: merged_ok_def M_def list_all_iff)
  have e: "merged_at empty_sheet rc = False" "value_at empty_sheet rc = VNone" for rc
    by (simp_all add: empty_sheet_def merged_at_def value_at_def cell_at_def)
  have inv: "\<forall>rc. merged_at d rc = (rc \<in> M)"
    by (simp add: d_def M_def merged_positions_def merged_at_fold_merge e)
  have vd: "value_at d rc = VNone" for rc
    by (simp add: d_def value_at_fold_merge e)
  obtain dest where dest: "fold_err (copy_cell src_ws) (iter_positions src_ws) d = Inr dest"
    and v: "\<forall>rc. value_at dest rc =
              (if rc \<in> set (iter_positions src_ws) \<and> rc \<notin> M \<and> value_of (src_cell src_ws rc) \<noteq> VNone
               then value_of (src_cell src_ws rc) else value_at d rc)"
    using copy_loop [OF inv wf, of "iter_positions src_ws"] by blast
  have "copy_worksheet_contents src_ws empty_sheet = Inr dest"
    using dest by (simp add: copy_worksheet_contents_def d_def)
  moreover have "value_at dest (r, c)
      = value_at (copy_worksheet_values_only src_ws empty_sheet) (r, c)" for r c
    using v [rule_format, of "(r, c)"]
    by (auto simp: values_only_value_at vd set_iter_positions M_def)
  ultimately show ?thesis by blast
qed

theorem copies_agree_on_values_witness:
  "merged_ok
     \<lparr>cells = [((1, 1), Cell (VStr ''Group'') default_style),
               ((1, 2), MergedCell default_style),
               ((2, 1), Cell (VInt 3) default_style),
               ((2, 2), Cell (VStr ''x'') default_style)],
      merged_ranges = [(1, 1, 1, 2)], current_row = 2\<rparr> \<and>
   (\<exists>dest. copy_worksheet_contents
        \<lparr>cells = [((1, 1), Cell (VStr ''Group'') default_style),
                  ((1, 2), MergedCell default_style),
                  ((2, 1), Cell (VInt 3) default_style),
                  ((2, 2), Cell (VStr ''x'') default_style)],
         merged_ranges = [(1, 1, 1, 2)], current_row = 2\<rparr> empty_sheet = Inr dest \<and>
      value_at dest (1, 1) = VStr ''Group'' \<and> value_at dest (1, 2) = VNone \<and>
      value_at dest (2, 1) = VInt 3 \<and> value_at dest (2, 2) = VStr ''x'')"
proof -
  let ?src = "\<lparr>cells = [((1, 1), Cell (VStr ''Group'') default_style),
               ((1, 2), MergedCell default_style),
               ((2, 1), Cell (VInt 3) default_style),
               ((2, 2), Cell (VStr ''x'') default_style)],
      merged_ranges = [(1, 1, 1, 2)], current_row = 2\<rparr>"
  have ok: "merged_ok ?src" by code_simp
  have f: "value_at (copy_worksheet_values_only ?src empty_sheet) (1, 1) = VStr ''Group''"
    "value_at (copy_worksheet_values_only ?src empty_sheet) (1, 2) = VNone"
    "value_at (copy_worksheet_values_only ?src empty_sheet) (2, 1) = VInt 3"
    "value_at (copy_worksheet_values_only ?src empty_sheet) (2, 2) = VStr ''x''"
    by code_simp+
  obtain dest where d: "copy_worksheet_contents ?src empty_sheet = Inr dest"
    and v: "\<forall>r c. value_at dest (r, c)
                    = value_at (copy_worksheet_values_only ?src empty_sheet) (r, c)"
    using copies_agree_on_values [OF ok] by blast
  have "value_at dest (1, 1) = VStr ''Group''" "value_at dest (1, 2) = VNone"
    "value_at dest (2, 1) = VInt 3" "value_at dest (2, 2) = VStr ''x''"
    by (simp_all only: v [rule_format] f)
  then show ?thesis using ok d by blast
qed

section \<open>Further properties of the schedule grid\<close>

text \<open>
  In an attribute row, every cell written to a visit column is the coerced value of
  that column: an empty or NaN value is written as the empty string, a float that
  equals its truncation is written as that integer, and no written cell is empty or NaN.
\<close>

theorem attr_cells_coerced:
  assumes "attr_cells within_tol ctx attr js = Inr ws" and "k < length ws"
  shows "\<exists>v. mapped_value ctx attr (js ! k) = Write v \<and>
           (isna v \<longrightarrow> ws ! k = VStr []) \<and>
           (\<forall>q. v = VFloat (Finite q) \<and> q = of_int (trunc q) \<longrightarrow> ws ! k = VInt (trunc q)) \<and>
           \<not> isna (ws ! k)"
proof -
  obtain v where v: "mapped_value ctx attr (js ! k) = Write v"
    and c: "coerce_value within_tol v = Inr (ws ! k)"
    using attr_cells_nth [OF assms] by blast
  have "isna v \<longrightarrow> ws ! k = VStr []" using c coerce_isna [of v within_tol] by auto
  moreover have "\<forall>q. v = VFloat (Finite q) \<and> q = of_int (trunc q) \<longrightarrow> ws ! k = VInt (trunc q)"
    using c coerce_integral [of _ within_tol] by auto
  moreover have "\<not> isna (ws ! k)" using coerce_result [OF c] by simp
  ultimately show ?thesis using v by blast
qed

theorem attr_cells_coerced_witness:
  "attr_cells (\<lambda>a b. False)
     \<lparr>visit_groups = [''Treatment''], visit_labels = [''Week 1''], event_names = [''V1''],
      rand_idx = 0, df_columns = [''Event Group'', ''Visit Name'', ''Offset Days''],
      df_rows = [[VStr ''Treatment'', VStr ''Week 1'', VFloat (Finite 7)]]\<rparr>
     ''Offset Days (Planned Visit Date, as calculated from Offset Event)'' [0]
     = Inr [VInt 7] \<and>
   (\<exists>v. mapped_value
        \<lparr>visit_groups = [''Treatment''], visit_labels = [''Week 1''], event_names = [''V1''],
         rand_idx = 0, df_columns = [''Event Group'', ''Visit Name'', ''Offset Days''],
         df_rows = [[VStr ''Treatment'', VStr ''Week 1'', VFloat (Finite 7)]]\<rparr>
        ''Offset Days (Planned Visit Date, as calculated from Offset Event)'' ([0] ! 0) = Write v \<and>
      \<not> isna ([VInt 7] ! 0))"
proof -
  let ?ctx = "\<lparr>visit_groups = [''Treatment''], visit_labels = [''Week 1''], event_names = [''V1''],
      rand_idx = 0, df_columns = [''Event Group'', ''Visit Name'', ''Offset Days''],
      df_rows = [[VStr ''Treatment'', VStr ''Week 1'', VFloat (Finite 7)]]\<rparr>"
  let ?attr = "''Offset Days (Planned Visit Date, as calculated from Offset Event)''"
  have e: "attr_cells (\<lambda>a b. False) ?ctx ?attr [0] = Inr [VInt 7]" by code_simp
  have k: "(0::nat) < length [VInt 7]" by simp
  show ?thesis using attr_cells_coerced [OF e k] e by blast
qed

text \<open>
  In the row of a form, every cell written to a visit column is the coerced value
  found under the visit label, or else under the event name: an empty or NaN value is
  written as the empty string, a float that equals its truncation as that integer, and
  no written cell is empty or NaN.
\<close>

theorem form_visit_cells_coerced:
  assumes "form_visit_cells within_tol cols r ls = Inr ws" and "k < length ws"
  shows "(isna (form_lookup cols r (fst (ls ! k)) (snd (ls ! k))) \<longrightarrow> ws ! k = VStr []) \<and>
         (\<forall>q. form_lookup cols r (fst (ls ! k)) (snd (ls ! k)) = VFloat (Finite q) \<and>
                q = of_int (trunc q) \<longrightarrow> ws ! k = VInt (trunc q)) \<and>
         \<not> isna (ws ! k)"
proof -
  have c: "coerce_value within_tol (form_lookup cols r (fst (ls ! k)) (snd (ls ! k))) = Inr (ws ! k)"
    using form_visit_cells_nth [OF assms] by blast
  have "isna (form_lookup cols r (fst (ls ! k)) (snd (ls ! k))) \<longrightarrow> ws ! k = VStr []"
    using c coerce_isna [of _ within_tol] by auto
  moreover have "\<forall>q. form_lookup cols r (fst (ls ! k)) (snd (ls ! k)) = VFloat (Finite q) \<and>
                q = of_int (trunc q) \<longrightarrow> ws ! k = VInt (trunc q)"
    using c coerce_integral [of _ within_tol] by auto
  moreover have "\<not> isna (ws ! k)" using coerce_result [OF c] by simp
  ultimately show ?thesis by blast
qed

theorem form_visit_cells_coerced_witness:
  "form_visit_cells (\<lambda>a b. False) [''Form Label'', ''V1'', ''V2'']
       [VStr ''Vitals'', VFloat NaN, VFloat (Finite 2)] [(''V1'', ''SCRN''), (''V2'', ''V2'')]
     = Inr [VStr [], VInt 2] \<and>
   \<not> isna ([VStr [], VInt 2] ! 1)"
proof -
  have e: "form_visit_cells (\<lambda>a b. False) [''Form Label'', ''V1'', ''V2'']
       [VStr ''Vitals'', VFloat NaN, VFloat (Finite 2)] [(''V1'', ''SCRN''), (''V2'', ''V2'')]
     = Inr [VStr [], VInt 2]" by code_simp
  have k: "(1::nat) < length [VStr [], VInt 2]" by simp
  show ?thesis using form_visit_cells_coerced [OF e k] e by blast
qed

text \<open>
  A group that contains "screen", compared case-insensitively, gets the screening
  code of the configuration (SCRN by default), whatever the label.
\<close>

theorem screening_has_priority:
  assumes "contains (lower grp) ''screen''"
  shows "make_event_name str_format grp label idx cfg
           = Inr (dict_get (event_mapping_of cfg) ''screening'' ''SCRN'')"
  using assms by (simp add: make_event_name_def Let_def keyword_strip)

theorem screening_has_priority_witness:
  "contains (lower ''Screening Period'') ''screen'' \<and>
   make_event_name (\<lambda>t n. Inr (t @ n)) ''Screening Period'' ''V7'' 3 \<lparr>event_name_mapping = None\<rparr>
     = Inr ''SCRN''"
proof -
  have h: "contains (lower ''Screening Period'') ''screen''" by code_simp
  show ?thesis
    using screening_has_priority [OF h, of "\<lambda>t n. Inr (t @ n)" "''V7''" 3
        "\<lparr>event_name_mapping = None\<rparr>"] h
    by (simp add: dict_get_def event_mapping_of_def)
qed

text \<open>
  The randomisation index is the index of the first group that contains "random",
  compared case-insensitively, and 0 when no group does.
\<close>

lemma first_random_None:
  "first_random i gs = None \<longleftrightarrow> (\<forall>g\<in>set gs. \<not> contains (lower g) ''random'')"
  by (induction gs arbitrary: i) auto

lemma first_random_Some:
  "k < length gs \<Longrightarrow> contains (lower (gs ! k)) ''random'' \<Longrightarrow>
   (\<forall>m<k. \<not> contains (lower (gs ! m)) ''random'') \<Longrightarrow> first_random i gs = Some (i + k)"
proof (induction gs arbitrary: i k)
  case Nil
  then show ?case by simp
next
  case (Cons g gs)
  show ?case
  proof (cases k)
    case 0
    then show ?thesis using Cons.prems by simp
  next
    case (Suc n)
    have g: "\<not> contains (lower g) ''random''" using Cons.prems(3) Suc by auto
    have "first_random (Suc i) gs = Some (Suc i + n)"
    proof (rule Cons.IH)
      show "n < length gs" using Cons.prems(1) Suc by simp
      show "contains (lower (gs ! n)) ''random''" using Cons.prems(2) Suc by simp
      show "\<forall>m<n. \<not> contains (lower (gs ! m)) ''random''"
        using Cons.prems(3) Suc by auto
    qed
    then show ?thesis using g Suc by simp
  qed
qed

theorem rand_idx_is_first_random:
  "((\<forall>g\<in>set groups. \<not> contains (lower g) ''random'') \<longrightarrow> rand_idx_of groups = 0) \<and>
   (\<forall>k<length groups.
      contains (lower (groups ! k)) ''random'' \<and>
      (\<forall>m<k. \<not> contains (lower (groups ! m)) ''random'') \<longrightarrow>
      rand_idx_of groups = k)"
proof -
  have a: "rand_idx_of groups = 0" if "\<forall>g\<in>set groups. \<not> contains (lower g) ''random''"
    using that first_random_None [of 0 groups] by (simp add: rand_idx_of_def)
  have b: "rand_idx_of groups = k"
    if "k < length groups" "contains (lower (groups ! k)) ''random''"
      "\<forall>m<k. \<not> contains (lower (groups ! m)) ''random''" for k
    using first_random_Some [OF that, of 0] by (simp add: rand_idx_of_def)
  show ?thesis using a b by blast
qed

theorem rand_idx_is_first_random_witness:
  "rand_idx_of [''Screening'', ''Randomisation'', ''Treatment''] = 1 \<and>
   rand_idx_of [''Screening'', ''Treatment''] = 0"
proof -
  have k: "(1::nat) < length [''Screening'', ''Randomisation'', ''Treatment'']" by simp
  have c: "contains (lower ([''Screening'', ''Randomisation'', ''Treatment''] ! 1)) ''random''"
    by code_simp
  have m: "\<forall>m<(1::nat). \<not> contains (lower ([''Screening'', ''Randomisation'', ''Treatment''] ! m)) ''random''"
  proof (intro allI impI)
    fix m :: nat
    assume "m < 1"
    then have "m = 0" by simp
    moreover have "\<not> contains (lower ''Screening'') ''random''" by code_simp
    ultimately show "\<not> contains (lower ([''Screening'', ''Randomisation'', ''Treatment''] ! m)) ''random''"
      by simp
  qed
  have n: "\<forall>g\<in>set [''Screening'', ''Treatment'']. \<not> contains (lower g) ''random''"
  proof -
    have "\<not> contains (lower ''Screening'') ''random''" "\<not> contains (lower ''Treatment'') ''random''"
      by code_simp+
    then show ?thesis by simp
  qed
  show ?thesis
    using rand_idx_is_first_random [of "[''Screening'', ''Randomisation'', ''Treatment'']",
        THEN conjunct2, rule_format, of 1] k c m
      rand_idx_is_first_random [of "[''Screening'', ''Treatment'']", THEN conjunct1] n
    by blast
qed

section \<open>Further properties of the replacement of sheets\<close>

lemma filter_remove_first:
  "filter (\<lambda>x. fst x \<noteq> a \<and> fst x \<noteq> b) (remove_sheet a wb)
     = filter (\<lambda>x. fst x \<noteq> a \<and> fst x \<noteq> b) wb"
  by (induction wb) auto

lemma filter_remove_second:
  "filter (\<lambda>x. fst x \<noteq> a \<and> fst x \<noteq> b) (remove_sheet b wb)
     = filter (\<lambda>x. fst x \<noteq> a \<and> fst x \<noteq> b) wb"
  by (induction wb) auto

lemma filter_create_sheet:
  "\<not> P (title, content) \<Longrightarrow> filter P (create_sheet title content index wb) = filter P wb"
proof (cases index)
  case None
  assume "\<not> P (title, content)"
  then show ?thesis using None by (simp add: create_sheet_def)
next
  case (Some i)
  assume n: "\<not> P (title, content)"
  have td: "filter P (take i wb) @ filter P (drop i wb) = filter P wb"
    by (simp only: filter_append [symmetric] append_take_drop_id)
  have "filter P (take i wb @ [(title, content)] @ drop i wb) = filter P wb"
    using n td by simp
  then show ?thesis using Some by (simp only: create_sheet_def option.case)
qed

text \<open>
  The sheets of the template that are not named like a target sheet come out of the
  replacement with the same content and in the same order among themselves.
\<close>

theorem place_sheets_keeps_other_sheets:
  "filter (\<lambda>x. fst x \<noteq> schedule_sheet_name \<and> fst x \<noteq> forms_sheet_name)
     (place_sheets wb_template schedule_sheet_name forms_sheet_name dest_schedule dest_forms)
   = filter (\<lambda>x. fst x \<noteq> schedule_sheet_name \<and> fst x \<noteq> forms_sheet_name) wb_template"
  by (simp add: place_sheets_def Let_def filter_create_sheet filter_remove_first
      filter_remove_second split: prod.splits if_splits)

lemma index_of_replace:
  "name \<in> set (map fst wb) \<Longrightarrow>
   take (index_of name (map fst wb)) (remove_sheet name wb) @ [x]
     @ drop (index_of name (map fst wb)) (remove_sheet name wb)
   = wb[index_of name (map fst wb) := x]"
  by (induction wb) auto

lemma index_of_less: "name \<in> set ns \<Longrightarrow> index_of name ns < length ns"
  by (induction ns) auto

lemma length_remove_sheet:
  "name \<in> set (map fst wb) \<Longrightarrow> Suc (length (remove_sheet name wb)) = length wb"
  by (induction wb) auto

lemma remove_sheet_absent: "name \<notin> set (map fst wb) \<Longrightarrow> remove_sheet name wb = wb"
  by (induction wb) auto

lemma set_remove_sheet: "fst ` set (remove_sheet name wb) \<subseteq> fst ` set wb"
  by (induction wb) auto

text \<open>
  With neither target sheet in the template both new sheets are appended, the
  schedule sheet first. With the schedule sheet alone in the template its replacement
  is at the same index, every other sheet keeps its index, and the forms sheet is
  appended; likewise with the forms sheet alone.
\<close>

theorem place_sheets_single_target:
  "(schedule_sheet_name \<notin> set (map fst wb) \<and> forms_sheet_name \<notin> set (map fst wb) \<longrightarrow>
      place_sheets wb schedule_sheet_name forms_sheet_name s f
        = wb @ [(schedule_sheet_name, s), (forms_sheet_name, f)]) \<and>
   (schedule_sheet_name \<in> set (map fst wb) \<and> forms_sheet_name \<notin> set (map fst wb) \<longrightarrow>
      place_sheets wb schedule_sheet_name forms_sheet_name s f
        = wb[index_of schedule_sheet_name (map fst wb) := (schedule_sheet_name, s)]
            @ [(forms_sheet_name, f)]) \<and>
   (schedule_sheet_name \<notin> set (map fst wb) \<and> forms_sheet_name \<in> set (map fst wb) \<longrightarrow>
      place_sheets wb schedule_sheet_name forms_sheet_name s f
        = (wb @ [(schedule_sheet_name, s)])
            [index_of forms_sheet_name (map fst wb) := (forms_sheet_name, f)])"
proof (intro conjI impI)
  assume "schedule_sheet_name \<notin> set (map fst wb) \<and> forms_sheet_name \<notin> set (map fst wb)"
  then show "place_sheets wb schedule_sheet_name forms_sheet_name s f
        = wb @ [(schedule_sheet_name, s), (forms_sheet_name, f)]"
    by (simp add: place_sheets_def create_sheet_def)
next
  assume a: "schedule_sheet_name \<in> set (map fst wb) \<and> forms_sheet_name \<notin> set (map fst wb)"
  then have "forms_sheet_name \<notin> set (map fst (remove_sheet schedule_sheet_name wb))"
    using set_remove_sheet [of schedule_sheet_name wb] by auto
  then show "place_sheets wb schedule_sheet_name forms_sheet_name s f
        = wb[index_of schedule_sheet_name (map fst wb) := (schedule_sheet_name, s)]
            @ [(forms_sheet_name, f)]"
    using a index_of_replace [of schedule_sheet_name wb "(schedule_sheet_name, s)"]
    by (simp add: place_sheets_def create_sheet_def)
next
  assume a: "schedule_sheet_name \<notin> set (map fst wb) \<and> forms_sheet_name \<in> set (map fst wb)"
  let ?i = "index_of forms_sheet_name (map fst wb)"
  let ?w = "remove_sheet forms_sheet_name wb"
  have i: "?i < length wb" using a index_of_less [of forms_sheet_name "map fst wb"] by simp
  have r: "take ?i ?w @ [(forms_sheet_name, f)] @ drop ?i ?w = wb[?i := (forms_sheet_name, f)]"
    using a index_of_replace [of forms_sheet_name wb "(forms_sheet_name, f)"] by simp
  have len: "Suc (length ?w) = length wb"
    using a length_remove_sheet [of forms_sheet_name wb] by simp
  have "take ?i (?w @ [(schedule_sheet_name, s)]) @ [(forms_sheet_name, f)]
          @ drop ?i (?w @ [(schedule_sheet_name, s)])
        = (take ?i ?w @ [(forms_sheet_name, f)] @ drop ?i ?w) @ [(schedule_sheet_name, s)]"
    using i len by simp
  also have "\<dots> = (wb @ [(schedule_sheet_name, s)])[?i := (forms_sheet_name, f)]"
    using r i by (simp add: list_update_append)
  finally show "place_sheets wb schedule_sheet_name forms_sheet_name s f
        = (wb @ [(schedule_sheet_name, s)])[?i := (forms_sheet_name, f)]"
    using a by (simp add: place_sheets_def create_sheet_def)
qed

theorem place_sheets_single_target_witness:
  "place_sheets [(''Cover'', empty_sheet), (''Schedule Grid'', empty_sheet), (''Notes'', empty_sheet)]
       ''Schedule Grid'' ''Study Specific Forms'' s f
     = [(''Cover'', empty_sheet), (''Schedule Grid'', s), (''Notes'', empty_sheet),
        (''Study Specific Forms'', f)]"
proof -
  let ?wb = "[(''Cover'', empty_sheet), (''Schedule Grid'', empty_sheet), (''Notes'', empty_sheet)]"
  have h: "''Schedule Grid'' \<in> set (map fst ?wb) \<and> ''Study Specific Forms'' \<notin> set (map fst ?wb)"
    by simp
  show ?thesis
    using place_sheets_single_target [of "''Schedule Grid''" ?wb "''Study Specific Forms''" s f,
        THEN conjunct2, THEN conjunct1, rule_format, OF h]
    by simp
qed

end
